theory Spec2Isabelle
  imports Main
begin

section \<open>JavaScript dates\<close>

text \<open>
  Both source files compute with JavaScript \<open>Date\<close> objects. A \<open>Date\<close> holds a time
  value, a whole number of milliseconds since 1 January 1970, or \<open>NaN\<close>: the
  \<open>Invalid Date\<close>. Its calendar fields (\<open>getFullYear\<close>, \<open>getMonth\<close>, \<open>getDate\<close>,
  \<open>getDay\<close>) are read in local time. The specification treats dates as timezone-less,
  so local time is taken to be UTC: local time and time value are the same number and
  no daylight-saving change occurs.

  The calendar is the proleptic Gregorian calendar of ECMA-262 (section "Time Values
  and Time Range" and the abstract operations \<open>Day\<close>, \<open>TimeWithinDay\<close>,
  \<open>DayFromYear\<close>, \<open>InLeapYear\<close>, \<open>YearFromTime\<close>, \<open>MonthFromTime\<close>,
  \<open>DateFromTime\<close>, \<open>WeekDay\<close>, \<open>MakeDay\<close>, \<open>MakeDate\<close>, \<open>TimeClip\<close>). The
  operations of this first part work on time values, which are integers.
\<close>

definition msPerDay :: int where
  "msPerDay = 86400000"

definition Day :: "int \<Rightarrow> int" where
  "Day t = t div msPerDay"

definition TimeWithinDay :: "int \<Rightarrow> int" where
  "TimeWithinDay t = t mod msPerDay"

definition MakeDate :: "int \<Rightarrow> int \<Rightarrow> int" where
  "MakeDate day time = day * msPerDay + time"

definition InLeapYear :: "int \<Rightarrow> bool" where
  "InLeapYear y = (y mod 4 = 0 \<and> (y mod 100 \<noteq> 0 \<or> y mod 400 = 0))"

definition DayFromYear :: "int \<Rightarrow> int" where
  "DayFromYear y =
     365 * (y - 1970) + (y - 1969) div 4 - (y - 1901) div 100 + (y - 1601) div 400"

text \<open>
  Months are counted from January of year 0: month \<open>k\<close> is month \<open>k mod 12\<close>
  (0 = January, as \<open>getMonth\<close> numbers them) of year \<open>k div 12\<close>.
  \<open>daysBeforeMonth\<close> is the table of ECMA-262's \<open>MonthFromTime\<close>.
\<close>

definition daysBeforeMonth :: "bool \<Rightarrow> int \<Rightarrow> int" where
  "daysBeforeMonth leap m =
     (if m = 0 then 0 else if m = 1 then 31
      else (if leap then 1 else 0) +
        (if m = 2 then 59 else if m = 3 then 90 else if m = 4 then 120
         else if m = 5 then 151 else if m = 6 then 181 else if m = 7 then 212
         else if m = 8 then 243 else if m = 9 then 273 else if m = 10 then 304
         else 334))"

definition monthStart :: "int \<Rightarrow> int" where
  "monthStart k =
     DayFromYear (k div 12) + daysBeforeMonth (InLeapYear (k div 12)) (k mod 12)"

definition daysInMonth :: "int \<Rightarrow> int" where
  "daysInMonth k =
     (if k mod 12 = 1 then (if InLeapYear (k div 12) then 29 else 28)
      else if k mod 12 = 3 \<or> k mod 12 = 5 \<or> k mod 12 = 8 \<or> k mod 12 = 10 then 30
      else 31)"

text \<open>
  \<open>monthOf n\<close> is the month that holds day \<open>n\<close>: the search starts at January of a
  year that does not begin after day \<open>n\<close> and walks forward while the next month
  begins on or before day \<open>n\<close>.
\<close>

function monthSearch :: "int \<Rightarrow> int \<Rightarrow> int" where
  "monthSearch n k = (if monthStart (k + 1) \<le> n then monthSearch n (k + 1) else k)"
  by pat_completeness auto

definition monthOf :: "int \<Rightarrow> int" where
  "monthOf n =
     monthSearch n (12 * (1970 + (if 0 \<le> n then n div 366 else n div 365)))"

definition YearFromTime :: "int \<Rightarrow> int" where
  "YearFromTime t = monthOf (Day t) div 12"

definition MonthFromTime :: "int \<Rightarrow> int" where
  "MonthFromTime t = monthOf (Day t) mod 12"

definition DateFromTime :: "int \<Rightarrow> int" where
  "DateFromTime t = Day t - monthStart (monthOf (Day t)) + 1"

text \<open>\<open>WeekDay\<close>: 0 is Sunday; 1 January 1970 was a Thursday.\<close>

definition WeekDay :: "int \<Rightarrow> int" where
  "WeekDay t = (Day t + 4) mod 7"

text \<open>
  \<open>MakeDay\<close> accepts a month outside 0..11 and a day outside the month and carries
  both over: month 12 of a year is January of the next, day 0 of a month is the last
  day of the month before, day 31 of a 30-day month is the first of the next month.
\<close>

definition MakeDay :: "int \<Rightarrow> int \<Rightarrow> int \<Rightarrow> int" where
  "MakeDay year month date = monthStart (12 * year + month) + date - 1"

subsection \<open>The type \<open>Date\<close>\<close>

text \<open>
  The time value of a \<open>Date\<close> is at most 8,640,000,000,000,000 ms (100,000,000 days)
  away from 1 January 1970, or it is \<open>NaN\<close>. \<open>getTime\<close> reads it, with \<open>None\<close> for
  \<open>NaN\<close>. \<open>TimeClip\<close> makes a \<open>Date\<close> of a number of milliseconds: a number outside the
  range gives the \<open>Invalid Date\<close>. Every constructor and every setter ends in
  \<open>TimeClip\<close>.
\<close>

typedef Date = "{v :: int option. case v of None \<Rightarrow> True | Some t \<Rightarrow> \<bar>t\<bar> \<le> 8640000000000000}"
  by (rule exI[of _ None]) simp

setup_lifting type_definition_Date

lift_definition getTime :: "Date \<Rightarrow> int option" is "\<lambda>v. v" .

lift_definition TimeClip :: "int \<Rightarrow> Date"
  is "\<lambda>t. if \<bar>t\<bar> \<le> 8640000000000000 then Some t else None"
  by simp

lift_definition InvalidDate :: Date is None
  by simp

text \<open>
  A JavaScript number that may be \<open>NaN\<close> is an \<open>int option\<close>, \<open>None\<close> for \<open>NaN\<close>. A
  comparison with \<open>NaN\<close> is false, whichever way it is put; \<open>a > b\<close> on two dates
  compares their time values.
\<close>

type_synonym number = "int option"

definition jsLess :: "number \<Rightarrow> number \<Rightarrow> bool" where
  "jsLess a b =
     (case a of None \<Rightarrow> False | Some x \<Rightarrow> (case b of None \<Rightarrow> False | Some y \<Rightarrow> x < y))"

definition jsGreater :: "number \<Rightarrow> number \<Rightarrow> bool" where
  "jsGreater a b = jsLess b a"

definition jsGreaterEq :: "number \<Rightarrow> number \<Rightarrow> bool" where
  "jsGreaterEq a b =
     (case a of None \<Rightarrow> False | Some x \<Rightarrow> (case b of None \<Rightarrow> False | Some y \<Rightarrow> x \<ge> y))"

subsection \<open>The methods of \<open>Date\<close>\<close>

text \<open>The getters of an \<open>Invalid Date\<close> return \<open>NaN\<close>.\<close>

definition getFullYear :: "Date \<Rightarrow> number" where
  "getFullYear date = map_option YearFromTime (getTime date)"

definition getMonth :: "Date \<Rightarrow> number" where
  "getMonth date = map_option MonthFromTime (getTime date)"

definition getDate :: "Date \<Rightarrow> number" where
  "getDate date = map_option DateFromTime (getTime date)"

definition getDay :: "Date \<Rightarrow> number" where
  "getDay date = map_option WeekDay (getTime date)"

text \<open>
  \<open>new Date(year, monthIndex, day)\<close>: local midnight; \<open>new Date(year, monthIndex, day,
  hours)\<close>: that hour of the day. The constructor reads a year from 0 to 99 as
  1900 + year (ECMA-262, \<open>MakeFullYear\<close>). The arguments here are numbers that are not
  \<open>NaN\<close>; where the source may pass \<open>NaN\<close> (\<open>getNthWeekdayInMonth\<close>), the model of the
  caller writes out that the constructor then gives the \<open>Invalid Date\<close>.
\<close>

definition newDate :: "int \<Rightarrow> int \<Rightarrow> int \<Rightarrow> Date" where
  "newDate year monthIndex day =
     TimeClip (MakeDate
       (MakeDay (if 0 \<le> year \<and> year \<le> 99 then 1900 + year else year) monthIndex day) 0)"

definition newDateHours :: "int \<Rightarrow> int \<Rightarrow> int \<Rightarrow> int \<Rightarrow> Date" where
  "newDateHours year monthIndex day hours =
     TimeClip (MakeDate
       (MakeDay (if 0 \<le> year \<and> year \<le> 99 then 1900 + year else year) monthIndex day)
       (hours * 3600000))"

text \<open>
  \<open>date.setDate(d)\<close>, \<open>date.setMonth(m, d)\<close> and \<open>date.setFullYear(y, m, d)\<close> keep the
  time of day; the model returns the new value of the date. Each gives the
  \<open>Invalid Date\<close> when an argument is \<open>NaN\<close> and when the new time value is out of
  range; \<open>setDate\<close> and \<open>setMonth\<close> leave an \<open>Invalid Date\<close> as it is, while
  \<open>setFullYear\<close> reads the time of day of an \<open>Invalid Date\<close> as 0.
\<close>

definition setDate :: "Date \<Rightarrow> number \<Rightarrow> Date" where
  "setDate date dayValue =
     (case getTime date of
        None \<Rightarrow> InvalidDate
      | Some t \<Rightarrow>
          (case dayValue of
             None \<Rightarrow> InvalidDate
           | Some dt \<Rightarrow>
               TimeClip (MakeDate (MakeDay (YearFromTime t) (MonthFromTime t) dt)
                          (TimeWithinDay t))))"

definition setMonth :: "Date \<Rightarrow> number \<Rightarrow> number \<Rightarrow> Date" where
  "setMonth date monthValue dayValue =
     (case getTime date of
        None \<Rightarrow> InvalidDate
      | Some t \<Rightarrow>
          (case monthValue of
             None \<Rightarrow> InvalidDate
           | Some m \<Rightarrow>
               (case dayValue of
                  None \<Rightarrow> InvalidDate
                | Some dt \<Rightarrow>
                    TimeClip (MakeDate (MakeDay (YearFromTime t) m dt) (TimeWithinDay t)))))"

definition setFullYear :: "Date \<Rightarrow> number \<Rightarrow> number \<Rightarrow> number \<Rightarrow> Date" where
  "setFullYear date yearValue monthValue dayValue =
     (case yearValue of
        None \<Rightarrow> InvalidDate
      | Some y \<Rightarrow>
          (case monthValue of
             None \<Rightarrow> InvalidDate
           | Some m \<Rightarrow>
               (case dayValue of
                  None \<Rightarrow> InvalidDate
                | Some dt \<Rightarrow>
                    TimeClip (MakeDate (MakeDay y m dt)
                      (TimeWithinDay (case getTime date of None \<Rightarrow> 0 | Some t \<Rightarrow> t))))))"

text \<open>
  \<open>toDateString\<close> prints weekday, month, day and year (\<open>"Mon Jan 01 2024"\<close>), and
  \<open>"Invalid Date"\<close> for an \<open>Invalid Date\<close> (here \<open>None\<close>); the source only compares
  two such strings, so the four fields stand for the string.
\<close>

definition toDateString :: "Date \<Rightarrow> (int \<times> int \<times> int \<times> int) option" where
  "toDateString date =
     map_option (\<lambda>t. (WeekDay t, MonthFromTime t, DateFromTime t, YearFromTime t))
       (getTime date)"

subsection \<open>The functions of date-fns that the sources import\<close>

text \<open>
  \<open>addDays\<close> returns the date for an amount of 0 and is
  \<open>date.setDate(date.getDate() + amount)\<close> on a copy otherwise. \<open>addMonths\<close> returns
  the date for an amount of 0; otherwise it moves to the month \<open>amount\<close> months later
  and keeps the day of the month, except that a day past the end of that month
  becomes its last day: it takes the last day of the desired month
  (\<open>setMonth(month + amount + 1, 0)\<close>), and returns it when the day of the month is not
  before it, otherwise sets year, month and day. When the last day of the desired
  month is out of range, its fields are \<open>NaN\<close>, the comparison is false and
  \<open>setFullYear(NaN, NaN, day)\<close> gives the \<open>Invalid Date\<close>. \<open>addWeeks\<close> and \<open>addYears\<close>
  are \<open>addDays\<close> of \<open>7 * amount\<close> and \<open>addMonths\<close> of \<open>12 * amount\<close>; \<open>isBefore\<close>
  compares the time values. The amounts here are numbers that are not \<open>NaN\<close>.
\<close>

definition addDays :: "Date \<Rightarrow> int \<Rightarrow> Date" where
  "addDays date amount =
     (if amount = 0 then date
      else setDate date (map_option (\<lambda>d. d + amount) (getDate date)))"

definition addMonths :: "Date \<Rightarrow> int \<Rightarrow> Date" where
  "addMonths date amount =
     (if amount = 0 then date
      else
        (let dayOfMonth = getDate date;
             endOfDesiredMonth =
               setMonth date (map_option (\<lambda>m. m + amount + 1) (getMonth date)) (Some 0);
             daysInMonth = getDate endOfDesiredMonth
         in if jsGreaterEq dayOfMonth daysInMonth then endOfDesiredMonth
            else setFullYear date (getFullYear endOfDesiredMonth) (getMonth endOfDesiredMonth)
                   dayOfMonth))"

definition addWeeks :: "Date \<Rightarrow> int \<Rightarrow> Date" where
  "addWeeks date amount = addDays date (amount * 7)"

definition addYears :: "Date \<Rightarrow> int \<Rightarrow> Date" where
  "addYears date amount = addMonths date (amount * 12)"

definition isBefore :: "Date \<Rightarrow> Date \<Rightarrow> bool" where
  "isBefore date dateToCompare = jsLess (getTime date) (getTime dateToCompare)"

text \<open>JavaScript's \<open>%\<close> takes the sign of the dividend.\<close>

definition jsRem :: "int \<Rightarrow> int \<Rightarrow> int" where
  "jsRem a b = sgn a * (\<bar>a\<bar> mod \<bar>b\<bar>)"

section \<open>The recurrence rule and the generator of the date picker\<close>

text \<open>
  \<open>RecurrenceType\<close>, \<open>MonthWeek\<close> and \<open>RecurrenceRule\<close> as the picker declares them.
  \<open>DayOfWeek\<close> is the numbers 0 to 6; the model keeps them as integers and the
  theorems say where they need the range. An optional field is an \<open>option\<close>.
\<close>

datatype RecurrenceType = Daily | Weekly | Monthly | Yearly | Custom

datatype MonthWeek = First | Second | Third | Fourth | Last

record RecurrenceRule =
  type :: RecurrenceType
  interval :: int
  daysOfWeek :: "int list option"
  monthDay :: "int option"
  monthWeek :: "MonthWeek option"
  monthWeekDay :: "int option"
  startDate :: Date
  endDate :: "Date option"

text \<open>
  \<open>getNthWeekdayInMonth\<close>: its two \<open>while\<close> loops walk a day at a time until
  \<open>getDay\<close> is the weekday asked for. They do not end for a weekday that no day has,
  and they do not end once the date is the \<open>Invalid Date\<close>, whose \<open>getDay\<close> is \<open>NaN\<close>
  and so differs from every weekday; each loop is a partial function and \<open>None\<close> is
  "does not return". \<open>new Date(NaN, NaN, 1)\<close>, which the function builds from an
  \<open>Invalid Date\<close>, is the \<open>Invalid Date\<close>.
\<close>

partial_function (option) scanForward :: "Date \<Rightarrow> int \<Rightarrow> Date option" where
  "scanForward firstWeekday weekday =
     (if getDay firstWeekday \<noteq> Some weekday then scanForward (addDays firstWeekday 1) weekday
      else Some firstWeekday)"

partial_function (option) scanBackward :: "Date \<Rightarrow> int \<Rightarrow> Date option" where
  "scanBackward lastWeekday weekday =
     (if getDay lastWeekday \<noteq> Some weekday then scanBackward (addDays lastWeekday (- 1)) weekday
      else Some lastWeekday)"

declare scanForward.simps [code]

declare scanBackward.simps [code]

definition getNthWeekdayInMonth :: "Date \<Rightarrow> MonthWeek \<Rightarrow> int \<Rightarrow> Date option" where
  "getNthWeekdayInMonth date week weekday =
     (let firstDayOfMonth =
            (case getFullYear date of
               None \<Rightarrow> InvalidDate
             | Some y \<Rightarrow>
                 (case getMonth date of None \<Rightarrow> InvalidDate | Some m \<Rightarrow> newDate y m 1));
          lastDayOfMonth =
            (case getFullYear date of
               None \<Rightarrow> InvalidDate
             | Some y \<Rightarrow>
                 (case getMonth date of None \<Rightarrow> InvalidDate | Some m \<Rightarrow> newDate y (m + 1) 0))
      in case scanForward firstDayOfMonth weekday of
           None \<Rightarrow> None
         | Some firstWeekday \<Rightarrow>
             (case week of
                First \<Rightarrow> Some firstWeekday
              | Second \<Rightarrow> Some (addDays firstWeekday 7)
              | Third \<Rightarrow> Some (addDays firstWeekday 14)
              | Fourth \<Rightarrow> Some (addDays firstWeekday 21)
              | Last \<Rightarrow> scanBackward lastDayOfMonth weekday))"

text \<open>
  The body of the \<open>switch\<close> of \<open>generateOccurrences\<close>: the next value of
  \<open>currentDate\<close>. \<open>rule.daysOfWeek?.length\<close> holds for a list that is there and not
  empty; \<open>find(...) || rule.daysOfWeek[0]\<close> takes the first day of the list when no
  day is later in the week (or when the day found is 0, which \<open>||\<close> reads as false).
  When the date is the \<open>Invalid Date\<close> after the jump of \<open>7 * interval\<close> days, its
  \<open>getDay\<close> is \<open>NaN\<close>, so is \<open>(nextDay - currentDay + 7) % 7\<close>, and \<open>addDays\<close> of
  \<open>NaN\<close> gives the \<open>Invalid Date\<close>. \<open>if (rule.monthDay)\<close> holds for a number that is
  there and not 0. A rule of type \<open>custom\<close> meets no \<open>case\<close> and leaves the date as
  it is.
\<close>

definition nextDay :: "int list \<Rightarrow> int \<Rightarrow> int" where
  "nextDay days currentDay =
     (case find (\<lambda>d. d > currentDay) days of
        Some d \<Rightarrow> if d = 0 then hd days else d
      | None \<Rightarrow> hd days)"

definition advance :: "RecurrenceRule \<Rightarrow> Date \<Rightarrow> Date option" where
  "advance rule currentDate =
     (case type rule of
        Daily \<Rightarrow> Some (addDays currentDate (interval rule))
      | Weekly \<Rightarrow>
          (let jumped = addDays currentDate (7 * interval rule)
           in case daysOfWeek rule of
                Some (d # ds) \<Rightarrow>
                  (case getDay jumped of
                     None \<Rightarrow> Some InvalidDate
                   | Some currentDay \<Rightarrow>
                       Some (addDays jumped
                              (jsRem (nextDay (d # ds) currentDay - currentDay + 7) 7)))
              | _ \<Rightarrow> Some jumped)
      | Monthly \<Rightarrow>
          (if monthDay rule \<noteq> None \<and> monthDay rule \<noteq> Some 0 then
             Some (setDate (addMonths currentDate (interval rule)) (monthDay rule))
           else if monthWeek rule \<noteq> None \<and> monthWeekDay rule \<noteq> None then
             getNthWeekdayInMonth (addMonths currentDate (interval rule))
               (the (monthWeek rule)) (the (monthWeekDay rule))
           else Some (addMonths currentDate (interval rule)))
      | Yearly \<Rightarrow> Some (addYears currentDate (interval rule))
      | Custom \<Rightarrow> Some currentDate)"

text \<open>
  The \<open>while\<close> loop of \<open>generateOccurrences\<close>: it runs while the list is shorter
  than \<open>count\<close>, leaves at the first date after \<open>rule.endDate\<close> (a comparison of
  time values, false for an \<open>Invalid Date\<close>) and appends the date otherwise. \<open>count\<close>
  is 30 when the caller gives none. The list starts as \<open>[rule.startDate]\<close>.
\<close>

function genLoop :: "RecurrenceRule \<Rightarrow> int \<Rightarrow> Date list \<Rightarrow> Date \<Rightarrow> Date list option" where
  "genLoop rule count occurrences currentDate =
     (if int (length occurrences) < count then
        (case advance rule currentDate of
           None \<Rightarrow> None
         | Some next \<Rightarrow>
             (case endDate rule of
                Some e \<Rightarrow>
                  if jsGreater (getTime next) (getTime e) then Some occurrences
                  else genLoop rule count (occurrences @ [next]) next
              | None \<Rightarrow> genLoop rule count (occurrences @ [next]) next))
      else Some occurrences)"
  by pat_completeness auto
termination
  by (relation "measure (\<lambda>(rule, count, occurrences, currentDate).
        nat (count - int (length occurrences)))") auto

definition generateOccurrences :: "RecurrenceRule \<Rightarrow> int option \<Rightarrow> Date list option" where
  "generateOccurrences rule count =
     genLoop rule (case count of None \<Rightarrow> 30 | Some c \<Rightarrow> c) [startDate rule] (startDate rule)"

subsection \<open>The handlers that edit the rule\<close>

text \<open>
  The interval field calls \<open>handleIntervalChange(parseInt(e.target.value) || 1)\<close>:
  \<open>parseInt\<close> gives a whole number or \<open>NaN\<close> (here \<open>None\<close>), and \<open>||\<close> replaces
  \<open>NaN\<close> and 0 by 1. \<open>handleIntervalChange\<close> and \<open>handleDayToggle\<close> pass the edited
  rule on (\<open>onChange\<close>), and the picker generates the occurrences of that rule; the
  model returns the rule. \<open>handleDayToggle\<close> removes the day from the list when it is
  there (\<open>splice\<close> at its first index) and otherwise appends it and sorts the list.
\<close>

definition intervalFieldValue :: "int option \<Rightarrow> int" where
  "intervalFieldValue parsed = (case parsed of None \<Rightarrow> 1 | Some n \<Rightarrow> if n = 0 then 1 else n)"

definition handleIntervalChange :: "RecurrenceRule \<Rightarrow> int \<Rightarrow> RecurrenceRule" where
  "handleIntervalChange rule intervl = rule\<lparr>interval := intervl\<rparr>"

definition handleDayToggle :: "RecurrenceRule \<Rightarrow> int \<Rightarrow> RecurrenceRule" where
  "handleDayToggle rule day =
     (let days = (case daysOfWeek rule of Some ds \<Rightarrow> ds | None \<Rightarrow> [])
      in rule\<lparr>daysOfWeek :=
           Some (if day \<in> set days then remove1 day days else sort (days @ [day]))\<rparr>)"

section \<open>The generator of App.js\<close>

datatype Frequency = FreqDaily | FreqWeekly | FreqMonthly | FreqYearly

text \<open>
  \<open>calculateRecurringDates\<close>: the loop has no bound of its own; it runs while there
  is no end date, or the current date is before it or on its calendar day.
\<close>

partial_function (option) calcLoop ::
    "Frequency \<Rightarrow> int \<Rightarrow> Date option \<Rightarrow> Date list \<Rightarrow> Date \<Rightarrow> Date list option" where
  "calcLoop freq intervl end' dates current =
     (if (case end' of None \<Rightarrow> True
          | Some e \<Rightarrow> isBefore current e \<or> toDateString current = toDateString e)
      then calcLoop freq intervl end' (dates @ [current])
             (case freq of
                FreqDaily \<Rightarrow> addDays current intervl
              | FreqWeekly \<Rightarrow> addWeeks current intervl
              | FreqMonthly \<Rightarrow> addMonths current intervl
              | FreqYearly \<Rightarrow> addYears current intervl)
      else Some dates)"

declare calcLoop.simps [code]

definition calculateRecurringDates ::
    "Frequency \<Rightarrow> int \<Rightarrow> Date \<Rightarrow> Date option \<Rightarrow> Date list option" where
  "calculateRecurringDates freq intervl start end' = calcLoop freq intervl end' [] start"

text \<open>
  The loop test and the \<open>switch\<close> of the loop body under names of their own; the
  lemma \<open>calcLoop_unfold\<close> states the loop with them.
\<close>

definition calcContinues :: "Date option \<Rightarrow> Date \<Rightarrow> bool" where
  "calcContinues end' current =
     (case end' of None \<Rightarrow> True
      | Some e \<Rightarrow> isBefore current e \<or> toDateString current = toDateString e)"

definition calcStep :: "Frequency \<Rightarrow> int \<Rightarrow> Date \<Rightarrow> Date" where
  "calcStep freq intervl current =
     (case freq of
        FreqDaily \<Rightarrow> addDays current intervl
      | FreqWeekly \<Rightarrow> addWeeks current intervl
      | FreqMonthly \<Rightarrow> addMonths current intervl
      | FreqYearly \<Rightarrow> addYears current intervl)"

section \<open>Valid rules\<close>

text \<open>
  The invariants the specification asks of a rule: the type is one of daily, weekly,
  monthly and yearly; the interval is at least 1; a weekly rule has a non-empty list
  of weekdays, each from 0 to 6; the day of the month of a monthly rule, when given,
  is from 1 to 31 and its weekday of the month from 0 to 6; an end date is not on an
  earlier calendar day than the start date (which asks that both are dates, not the
  \<open>Invalid Date\<close>).
\<close>

definition validRule :: "RecurrenceRule \<Rightarrow> bool" where
  "validRule rule =
     (type rule \<noteq> Custom \<and> 1 \<le> interval rule
      \<and> (type rule = Weekly \<longrightarrow>
            (case daysOfWeek rule of
               None \<Rightarrow> False
             | Some days \<Rightarrow> days \<noteq> [] \<and> list_all (\<lambda>d. 0 \<le> d \<and> d \<le> 6) days))
      \<and> (type rule = Monthly \<longrightarrow>
            (case monthDay rule of None \<Rightarrow> True | Some d \<Rightarrow> 1 \<le> d \<and> d \<le> 31)
            \<and> (case monthWeekDay rule of None \<Rightarrow> True | Some w \<Rightarrow> 0 \<le> w \<and> w \<le> 6))
      \<and> (case endDate rule of
            None \<Rightarrow> True
          | Some e \<Rightarrow>
              (case getTime (startDate rule) of
                 None \<Rightarrow> False
               | Some s \<Rightarrow> (case getTime e of None \<Rightarrow> False | Some t \<Rightarrow> Day s \<le> Day t))))"

section \<open>Notions for the statements\<close>

text \<open>
  \<open>inRange\<close>: the time values that \<open>TimeClip\<close> keeps. \<open>addMonthsTime t a\<close>: the time
  value on the same day of the month \<open>a\<close> months after \<open>t\<close>, or on the last day of
  that month when it is shorter, at the same time of day.
\<close>

definition inRange :: "int \<Rightarrow> bool" where
  "inRange t = (\<bar>t\<bar> \<le> 8640000000000000)"

definition addMonthsTime :: "int \<Rightarrow> int \<Rightarrow> int" where
  "addMonthsTime t a =
     MakeDate (monthStart (monthOf (Day t) + a)
                 + min (DateFromTime t) (daysInMonth (monthOf (Day t) + a)) - 1)
              (TimeWithinDay t)"

text \<open>
  \<open>ctorMonth t\<close>: the month that the two constructor calls of \<open>getNthWeekdayInMonth\<close>
  address for a date with time value \<open>t\<close>: the month of the date, or the same month
  1900 years (22800 months) later when the year of the date is one of 0 to 99.
\<close>

definition ctorMonth :: "int \<Rightarrow> int" where
  "ctorMonth t =
     monthOf (Day t) + (if 0 \<le> YearFromTime t \<and> YearFromTime t \<le> 99 then 22800 else 0)"


definition byNthWeekday :: "RecurrenceRule \<Rightarrow> bool" where
  "byNthWeekday rule =
     (type rule = Monthly \<and> (monthDay rule = None \<or> monthDay rule = Some 0)
      \<and> monthWeek rule \<noteq> None \<and> monthWeekDay rule \<noteq> None)"

section \<open>The calendar\<close>

subsection \<open>Years and months\<close>

lemma div_step:
  assumes d: "0 < d"
  shows "((a::int) + 1) div d = a div d + (if (a + 1) mod d = 0 then 1 else 0)"
proof -
  have r: "0 \<le> a mod d" "a mod d < d" using d by simp_all
  have e: "a + 1 = d * (a div d) + (a mod d + 1)" by simp
  show ?thesis
  proof (cases "a mod d + 1 = d")
    case True
    then have "a + 1 = d * (a div d + 1) + 0" using e by (simp add: algebra_simps)
    then have "(a + 1) div d = a div d + 1" "(a + 1) mod d = 0"
      using d int_div_pos_eq[of "a + 1" d "a div d + 1" 0]
        int_mod_pos_eq[of "a + 1" d "a div d + 1" 0]
      by simp_all
    then show ?thesis by simp
  next
    case False
    then have lt: "a mod d + 1 < d" using r by linarith
    have "(a + 1) div d = a div d" "(a + 1) mod d = a mod d + 1"
      using int_div_pos_eq[OF e _ lt] int_mod_pos_eq[OF e _ lt] r by simp_all
    then show ?thesis using r by simp
  qed
qed

lemma leap_mod4: "((y::int) + 1 - 1969) mod 4 = y mod 4"
  using mod_mult_self2[of y 4 "-492"] by simp

lemma leap_mod100: "((y::int) + 1 - 1901) mod 100 = y mod 100"
  using mod_mult_self2[of y 100 "-19"] by simp

lemma leap_mod400: "((y::int) + 1 - 1601) mod 400 = y mod 400"
  using mod_mult_self2[of y 400 "-4"] by simp

lemma DayFromYear_Suc:
  "DayFromYear (y + 1) = DayFromYear y + (if InLeapYear y then 366 else 365)"
proof -
  have a: "(y + 1 - 1969) div 4 = (y - 1969) div 4 + (if y mod 4 = 0 then 1 else 0)"
    using div_step[of 4 "y - 1969"] leap_mod4[of y] by (simp add: algebra_simps)
  have b: "(y + 1 - 1901) div 100 = (y - 1901) div 100 + (if y mod 100 = 0 then 1 else 0)"
    using div_step[of 100 "y - 1901"] leap_mod100[of y] by (simp add: algebra_simps)
  have c: "(y + 1 - 1601) div 400 = (y - 1601) div 400 + (if y mod 400 = 0 then 1 else 0)"
    using div_step[of 400 "y - 1601"] leap_mod400[of y] by (simp add: algebra_simps)
  have d: "y mod 100 = 0" if "y mod 400 = 0"
    using that mod_mod_cancel[of 100 400 y] by simp
  have e: "y mod 4 = 0" if "y mod 100 = 0"
    using that mod_mod_cancel[of 4 100 y] by simp
  have f: "DayFromYear (y + 1) = DayFromYear y + 365 + (if y mod 4 = 0 then 1 else 0)
      - (if y mod 100 = 0 then 1 else 0) + (if y mod 400 = 0 then 1 else 0)"
    unfolding DayFromYear_def a b c by simp
  show ?thesis
  proof (cases "y mod 4 = 0")
    case False
    then show ?thesis using d e f by (auto simp: InLeapYear_def)
  next
    case y4: True
    show ?thesis
    proof (cases "y mod 100 = 0")
      case False
      then show ?thesis using y4 d f by (auto simp: InLeapYear_def)
    next
      case True
      then show ?thesis using y4 f by (simp add: InLeapYear_def)
    qed
  qed
qed

lemma monthStart_Suc: "monthStart (k + 1) = monthStart k + daysInMonth k"
proof (cases "k mod 12 = 11")
  case True
  have e: "k + 1 = 12 * (k div 12 + 1) + 0"
    using True mult_div_mod_eq[of 12 k] by (simp add: algebra_simps)
  have "(k + 1) div 12 = k div 12 + 1" "(k + 1) mod 12 = 0"
    using int_div_pos_eq[OF e] int_mod_pos_eq[OF e] by simp_all
  then show ?thesis using True
    by (simp add: monthStart_def daysInMonth_def daysBeforeMonth_def DayFromYear_Suc)
next
  case False
  have r: "0 \<le> k mod 12" "k mod 12 < 12" by simp_all
  have e: "k + 1 = 12 * (k div 12) + (k mod 12 + 1)" by simp
  have "\<And>j::int. j < 12 \<Longrightarrow> j \<noteq> 11 \<Longrightarrow> j + 1 < 12" by presburger
  from this[OF r(2) False] have lt: "k mod 12 + 1 < 12" .
  have d: "(k + 1) div 12 = k div 12" and m: "(k + 1) mod 12 = k mod 12 + 1"
    using int_div_pos_eq[OF e _ lt] int_mod_pos_eq[OF e _ lt] r by simp_all
  have "\<And>j::int. 0 \<le> j \<Longrightarrow> j < 12 \<Longrightarrow> j \<noteq> 11 \<Longrightarrow>
      j = 0 \<or> j = 1 \<or> j = 2 \<or> j = 3 \<or> j = 4 \<or> j = 5 \<or> j = 6 \<or> j = 7 \<or> j = 8 \<or> j = 9 \<or> j = 10"
    by presburger
  from this[OF r False]
  consider "k mod 12 = 0" | "k mod 12 = 1" | "k mod 12 = 2" | "k mod 12 = 3" | "k mod 12 = 4"
    | "k mod 12 = 5" | "k mod 12 = 6" | "k mod 12 = 7" | "k mod 12 = 8" | "k mod 12 = 9" | "k mod 12 = 10"
    by blast
  then show ?thesis
    by cases (simp_all add: monthStart_def daysInMonth_def daysBeforeMonth_def d m)
qed

lemma daysInMonth_ge: "28 \<le> daysInMonth k"
  by (simp add: daysInMonth_def)

lemma daysInMonth_le: "daysInMonth k \<le> 31"
  by (simp add: daysInMonth_def)

lemma DayFromYear_1970: "DayFromYear 1970 = 0"
  by (simp add: DayFromYear_def)

lemma DayFromYear_upper: "0 \<le> q \<Longrightarrow> DayFromYear (1970 + q) \<le> 366 * q"
proof (induction q rule: int_ge_induct)
  case base
  show ?case by (simp add: DayFromYear_1970)
next
  case (step i)
  have "DayFromYear (1970 + (i + 1)) = DayFromYear (1970 + i + 1)" by (simp add: algebra_simps)
  also have "\<dots> \<le> DayFromYear (1970 + i) + 366"
    unfolding DayFromYear_Suc[of "1970 + i"] by simp
  finally show ?case using step by simp
qed

lemma DayFromYear_lower: "q \<le> 0 \<Longrightarrow> DayFromYear (1970 + q) \<le> 365 * q"
proof (induction q rule: int_le_induct)
  case base
  show ?case by (simp add: DayFromYear_1970)
next
  case (step i)
  have "DayFromYear (1970 + i) = DayFromYear (1970 + (i - 1) + 1)" by (simp add: algebra_simps)
  also have "\<dots> \<ge> DayFromYear (1970 + (i - 1)) + 365"
    unfolding DayFromYear_Suc[of "1970 + (i - 1)"] by simp
  finally show ?case using step by simp
qed

termination monthSearch
proof (relation "measure (\<lambda>(n, k). nat (n - monthStart k))")
  show "wf (measure (\<lambda>(n, k). nat (n - monthStart k)))" by simp
next
  fix n k :: int
  assume "monthStart (k + 1) \<le> n"
  then show "((n, k + 1), (n, k)) \<in> measure (\<lambda>(n, k). nat (n - monthStart k))"
    using daysInMonth_ge[of k] by (simp add: monthStart_Suc)
qed

declare monthSearch.simps [simp del]

lemma monthStart_less: "monthStart k < monthStart (k + 1)"
  using daysInMonth_ge[of k] by (simp add: monthStart_Suc)

lemma monthStart_mono: "k \<le> k' \<Longrightarrow> monthStart k \<le> monthStart k'"
proof (induction k' rule: int_ge_induct)
  case base
  show ?case by simp
next
  case (step i)
  then show ?case using monthStart_less[of i] by simp
qed

lemma monthStart_strict: "k < k' \<Longrightarrow> monthStart k < monthStart k'"
  using monthStart_mono[of "k + 1" k'] monthStart_less[of k] by simp

lemma monthSearch_spec:
  "monthStart k \<le> n \<Longrightarrow>
     monthStart (monthSearch n k) \<le> n \<and> n < monthStart (monthSearch n k + 1)"
proof (induction n k rule: monthSearch.induct)
  case (1 n k)
  show ?case
  proof (cases "monthStart (k + 1) \<le> n")
    case True
    then show ?thesis using "1.IH" by (simp add: monthSearch.simps[of n k])
  next
    case False
    then show ?thesis using "1.prems" by (simp add: monthSearch.simps[of n k])
  qed
qed

lemma monthStart_January: "monthStart (12 * y) = DayFromYear y"
  by (simp add: monthStart_def daysBeforeMonth_def)

lemma monthOf_start:
  "monthStart (12 * (1970 + (if 0 \<le> n then n div 366 else n div 365))) \<le> n"
proof (cases "0 \<le> n")
  case True
  then have q: "0 \<le> n div 366" by (simp add: pos_imp_zdiv_nonneg_iff)
  have "366 * (n div 366) \<le> n"
    using mult_div_mod_eq[of 366 n] pos_mod_sign[of 366 n] by linarith
  then have "monthStart (12 * (1970 + n div 366)) \<le> n"
    using monthStart_January[of "1970 + n div 366"] DayFromYear_upper[OF q] by linarith
  then show ?thesis using True by (simp only: if_True)
next
  case False
  then have q: "n div 365 \<le> 0" by (simp add: div_nonpos_pos_le0)
  have "365 * (n div 365) \<le> n"
    using mult_div_mod_eq[of 365 n] pos_mod_sign[of 365 n] by linarith
  then have "monthStart (12 * (1970 + n div 365)) \<le> n"
    using monthStart_January[of "1970 + n div 365"] DayFromYear_lower[OF q] by linarith
  then show ?thesis using False by (simp only: if_False)
qed

lemma monthOf_le: "monthStart (monthOf n) \<le> n"
  unfolding monthOf_def using monthSearch_spec[OF monthOf_start] by blast

lemma monthOf_gt: "n < monthStart (monthOf n + 1)"
  unfolding monthOf_def using monthSearch_spec[OF monthOf_start] by blast

lemma monthOf_unique:
  assumes "monthStart k \<le> n" and "n < monthStart (k + 1)"
  shows "monthOf n = k"
proof (rule ccontr)
  assume ne: "monthOf n \<noteq> k"
  show False
  proof (cases "monthOf n < k")
    case True
    then have "monthStart (monthOf n + 1) \<le> monthStart k" by (simp add: monthStart_mono)
    then show False using assms(1) monthOf_gt[of n] by linarith
  next
    case False
    then have "k + 1 \<le> monthOf n" using ne by simp
    then have "monthStart (k + 1) \<le> monthStart (monthOf n)" by (rule monthStart_mono)
    then show False using assms(2) monthOf_le[of n] by linarith
  qed
qed

subsection \<open>Time values and days\<close>

lemma msPerDay_pos: "0 < msPerDay"
  by (simp add: msPerDay_def)

lemma TimeWithinDay_range: "0 \<le> TimeWithinDay t" "TimeWithinDay t < msPerDay"
  using msPerDay_pos by (simp_all add: TimeWithinDay_def)

lemma MakeDate_Day: "MakeDate (Day t) (TimeWithinDay t) = t"
  by (simp add: MakeDate_def Day_def TimeWithinDay_def)

lemma Day_MakeDate:
  assumes "0 \<le> tm" and "tm < msPerDay"
  shows "Day (MakeDate d tm) = d"
proof -
  have "MakeDate d tm = msPerDay * d + tm" by (simp add: MakeDate_def)
  from int_div_pos_eq[OF this assms] show ?thesis by (simp add: Day_def)
qed

lemma TimeWithinDay_MakeDate:
  assumes "0 \<le> tm" and "tm < msPerDay"
  shows "TimeWithinDay (MakeDate d tm) = tm"
proof -
  have "MakeDate d tm = msPerDay * d + tm" by (simp add: MakeDate_def)
  from int_mod_pos_eq[OF this assms] show ?thesis by (simp add: TimeWithinDay_def)
qed

lemma Day_MakeDate_time: "Day (MakeDate d (TimeWithinDay t)) = d"
  by (rule Day_MakeDate[OF TimeWithinDay_range])

lemma TimeWithinDay_MakeDate_time: "TimeWithinDay (MakeDate d (TimeWithinDay t)) = TimeWithinDay t"
  by (rule TimeWithinDay_MakeDate[OF TimeWithinDay_range])

lemma Day_MakeDate_0: "Day (MakeDate d 0) = d"
  by (rule Day_MakeDate) (simp_all add: msPerDay_pos)

lemma TimeWithinDay_MakeDate_0: "TimeWithinDay (MakeDate d 0) = 0"
  by (rule TimeWithinDay_MakeDate) (simp_all add: msPerDay_pos)

lemma Day_less_imp_less: "Day a < Day b \<Longrightarrow> a < b"
proof -
  assume l: "Day a < Day b"
  have "a = MakeDate (Day a) (TimeWithinDay a)" "b = MakeDate (Day b) (TimeWithinDay b)"
    by (simp_all add: MakeDate_Day)
  moreover have "Day a * msPerDay + msPerDay \<le> Day b * msPerDay"
  proof -
    have "(Day a + 1) * msPerDay \<le> Day b * msPerDay"
      using l msPerDay_pos by (intro mult_right_mono) simp_all
    then show ?thesis by (simp add: algebra_simps)
  qed
  ultimately show ?thesis
    using TimeWithinDay_range[of a] TimeWithinDay_range[of b] unfolding MakeDate_def by linarith
qed


subsection \<open>The type \<open>Date\<close>\<close>

lemma getTime_TimeClip: "getTime (TimeClip t) = (if inRange t then Some t else None)"
  unfolding inRange_def by transfer simp

lemma getTime_InvalidDate: "getTime InvalidDate = None"
  by transfer simp

lemma Date_eqI: "getTime a = getTime b \<Longrightarrow> a = b"
  by transfer simp

lemma getTime_inRange: "getTime d = Some t \<Longrightarrow> inRange t"
  unfolding inRange_def by transfer auto

lemma TimeClip_getTime: "getTime d = Some t \<Longrightarrow> TimeClip t = d"
  by (rule Date_eqI) (simp add: getTime_TimeClip getTime_inRange)

lemma getTime_None: "getTime d = None \<Longrightarrow> d = InvalidDate"
  by (rule Date_eqI) (simp add: getTime_InvalidDate)

lemma TimeClip_inRange: "inRange t \<Longrightarrow> getTime (TimeClip t) = Some t"
  by (simp add: getTime_TimeClip)

lemma TimeClip_out: "\<not> inRange t \<Longrightarrow> TimeClip t = InvalidDate"
  by (rule Date_eqI) (simp add: getTime_TimeClip getTime_InvalidDate)

lemma TimeClip_cases: "getTime (TimeClip t) = None \<or> getTime (TimeClip t) = Some t"
  by (simp add: getTime_TimeClip)

lemma inRange_between: "inRange a \<Longrightarrow> inRange b \<Longrightarrow> a \<le> t \<Longrightarrow> t \<le> b \<Longrightarrow> inRange t"
  unfolding inRange_def by linarith

subsection \<open>The methods of \<open>Date\<close> and the functions of date-fns\<close>

lemma month_index: "12 * YearFromTime t + MonthFromTime t = monthOf (Day t)"
  by (simp add: YearFromTime_def MonthFromTime_def)

lemma getters_Invalid:
  "getFullYear InvalidDate = None" "getMonth InvalidDate = None"
  "getDate InvalidDate = None" "getDay InvalidDate = None"
  by (simp_all add: getFullYear_def getMonth_def getDate_def getDay_def getTime_InvalidDate)

lemma getters_valid:
  assumes "getTime d = Some t"
  shows "getFullYear d = Some (YearFromTime t)" "getMonth d = Some (MonthFromTime t)"
    "getDate d = Some (DateFromTime t)" "getDay d = Some (WeekDay t)"
  using assms by (simp_all add: getFullYear_def getMonth_def getDate_def getDay_def)

lemma getDay_Some_valid: "getDay d = Some g \<Longrightarrow> \<exists>t. getTime d = Some t \<and> WeekDay t = g"
  by (auto simp add: getDay_def)

lemma setDate_valid:
  "getTime d = Some t \<Longrightarrow>
   setDate d (Some v) = TimeClip (MakeDate (monthStart (monthOf (Day t)) + v - 1) (TimeWithinDay t))"
  by (simp add: setDate_def MakeDay_def month_index)

lemma setDate_Invalid: "setDate InvalidDate v = InvalidDate"
  by (simp add: setDate_def getTime_InvalidDate)

lemma addDays_Invalid: "addDays InvalidDate a = InvalidDate"
  by (simp add: addDays_def setDate_Invalid)

lemma addDays_valid:
  assumes "getTime d = Some t"
  shows "addDays d a = TimeClip (t + a * msPerDay)"
proof (cases "a = 0")
  case True
  then show ?thesis using TimeClip_getTime[OF assms] by (simp add: addDays_def)
next
  case False
  have "MakeDate (Day t + a) (TimeWithinDay t) = MakeDate (Day t) (TimeWithinDay t) + a * msPerDay"
    by (simp add: MakeDate_def algebra_simps)
  then have "MakeDate (Day t + a) (TimeWithinDay t) = t + a * msPerDay"
    by (simp add: MakeDate_Day)
  then show ?thesis
    using False by (simp add: addDays_def getters_valid[OF assms] setDate_valid[OF assms]
        DateFromTime_def)
qed

lemma inRange_addDays_mono:
  assumes "inRange t" and "0 \<le> a" and "a \<le> b" and "inRange (t + b * msPerDay)"
  shows "inRange (t + a * msPerDay)"
proof -
  have "0 \<le> a * msPerDay" using assms(2) msPerDay_pos by simp
  then have 1: "t \<le> t + a * msPerDay" by linarith
  have "a * msPerDay \<le> b * msPerDay" using assms(3) msPerDay_pos by simp
  then have 2: "t + a * msPerDay \<le> t + b * msPerDay" by linarith
  show ?thesis by (rule inRange_between[OF assms(1,4) 1 2])
qed

lemma addDays_addDays:
  assumes "0 \<le> a" and "0 \<le> b"
  shows "addDays (addDays d a) b = addDays d (a + b)"
proof (cases "getTime d")
  case None
  then show ?thesis using getTime_None[OF None] by (simp add: addDays_Invalid)
next
  case (Some t)
  note r = getTime_inRange[OF Some]
  show ?thesis
  proof (cases "inRange (t + a * msPerDay)")
    case True
    then have "getTime (addDays d a) = Some (t + a * msPerDay)"
      by (simp add: addDays_valid[OF Some] getTime_TimeClip)
    from addDays_valid[OF this] show ?thesis
      by (simp add: addDays_valid[OF Some] algebra_simps)
  next
    case False
    have "\<not> inRange (t + (a + b) * msPerDay)"
    proof
      assume "inRange (t + (a + b) * msPerDay)"
      from inRange_addDays_mono[OF r assms(1) _ this] assms(2) False show False by simp
    qed
    then show ?thesis using False
      by (simp add: addDays_valid[OF Some] TimeClip_out addDays_Invalid)
  qed
qed

lemma addDays_0: "addDays d 0 = d"
  by (simp add: addDays_def)

lemma WeekDay_range: "0 \<le> WeekDay t" "WeekDay t < 7"
  by (simp_all add: WeekDay_def)

lemma Day_add_days: "Day (t + a * msPerDay) = Day t + a"
  using msPerDay_pos by (simp add: Day_def)

lemma TimeWithinDay_add_days: "TimeWithinDay (t + a * msPerDay) = TimeWithinDay t"
  by (simp add: TimeWithinDay_def)

lemma WeekDay_add_days: "WeekDay (t + a * msPerDay) = (WeekDay t + a) mod 7"
  unfolding WeekDay_def Day_add_days by (simp add: mod_simps algebra_simps)

lemma DateFromTime_ge: "1 \<le> DateFromTime t"
  using monthOf_le[of "Day t"] by (simp add: DateFromTime_def)

lemma DateFromTime_le: "DateFromTime t \<le> daysInMonth (monthOf (Day t))"
  using monthOf_gt[of "Day t"] by (simp add: DateFromTime_def monthStart_Suc)

lemma monthOf_in_month:
  "1 \<le> d \<Longrightarrow> d \<le> daysInMonth k \<Longrightarrow> monthOf (monthStart k + d - 1) = k"
  by (rule monthOf_unique) (simp_all add: monthStart_Suc)

lemma monthOf_month_end: "monthOf (monthStart (k + 1) - 1) = k"
  using monthOf_in_month[of "daysInMonth k" k] daysInMonth_ge[of k]
  by (simp add: monthStart_Suc)

text \<open>
  What \<open>addMonths\<close> computes: the same day of the month \<open>a\<close> months on, or the last
  day of that month when it is shorter; the \<open>Invalid Date\<close> when the last day of that
  month, or the result itself, is out of range.
\<close>

lemma Day_addMonthsTime:
  "Day (addMonthsTime t a) =
     monthStart (monthOf (Day t) + a) + min (DateFromTime t) (daysInMonth (monthOf (Day t) + a)) - 1"
  unfolding addMonthsTime_def by (rule Day_MakeDate_time)

lemma TimeWithinDay_addMonthsTime: "TimeWithinDay (addMonthsTime t a) = TimeWithinDay t"
  unfolding addMonthsTime_def by (rule TimeWithinDay_MakeDate_time)

lemma monthOf_addMonthsTime: "monthOf (Day (addMonthsTime t a)) = monthOf (Day t) + a"
proof -
  have "1 \<le> min (DateFromTime t) (daysInMonth (monthOf (Day t) + a))"
    using DateFromTime_ge[of t] daysInMonth_ge[of "monthOf (Day t) + a"] by simp
  then show ?thesis
    unfolding Day_addMonthsTime by (intro monthOf_in_month) simp_all
qed

lemma DateFromTime_addMonthsTime:
  "DateFromTime (addMonthsTime t a) = min (DateFromTime t) (daysInMonth (monthOf (Day t) + a))"
proof -
  have "DateFromTime (addMonthsTime t a)
          = Day (addMonthsTime t a) - monthStart (monthOf (Day t) + a) + 1"
    by (simp only: DateFromTime_def monthOf_addMonthsTime)
  then show ?thesis by (simp add: Day_addMonthsTime)
qed

lemma addMonthsTime_0: "addMonthsTime t 0 = t"
proof -
  have "min (DateFromTime t) (daysInMonth (monthOf (Day t))) = DateFromTime t"
    using DateFromTime_le[of t] by simp
  then have "addMonthsTime t 0 = MakeDate (Day t) (TimeWithinDay t)"
    by (simp add: addMonthsTime_def DateFromTime_def)
  then show ?thesis by (simp add: MakeDate_Day)
qed

lemma addMonths_Invalid: "addMonths InvalidDate a = InvalidDate"
  by (simp add: addMonths_def Let_def getters_Invalid setMonth_def setFullYear_def
      getTime_InvalidDate jsGreaterEq_def)

lemma addMonths_valid:
  assumes t: "getTime d = Some t"
  shows "addMonths d a =
     (if a = 0 then d
      else if inRange (MakeDate (monthStart (monthOf (Day t) + a + 1) - 1) (TimeWithinDay t))
      then TimeClip (addMonthsTime t a) else InvalidDate)"
proof (cases "a = 0")
  case True
  then show ?thesis by (simp add: addMonths_def)
next
  case False
  define k where "k = monthOf (Day t) + a"
  define E where "E = MakeDate (monthStart (k + 1) - 1) (TimeWithinDay t)"
  define e where "e = setMonth d (Some (MonthFromTime t + a + 1)) (Some 0)"
  have idx1: "12 * YearFromTime t + (MonthFromTime t + a + 1) = k + 1"
    using month_index[of t] unfolding k_def by linarith
  have "MakeDay (YearFromTime t) (MonthFromTime t + a + 1) 0 = monthStart (k + 1) - 1"
    by (simp only: MakeDay_def idx1)
  then have e_eq: "e = TimeClip E"
    unfolding e_def E_def by (simp add: setMonth_def t getters_valid[OF t])
  have am: "addMonths d a =
      (if jsGreaterEq (Some (DateFromTime t)) (getDate e) then e
       else setFullYear d (getFullYear e) (getMonth e) (Some (DateFromTime t)))"
    using False by (simp add: addMonths_def Let_def e_def[symmetric] getters_valid[OF t])
  show ?thesis
  proof (cases "inRange E")
    case out: False
    then have "e = InvalidDate" unfolding e_eq by (rule TimeClip_out)
    then have "addMonths d a = InvalidDate"
      unfolding am by (simp add: getters_Invalid jsGreaterEq_def setFullYear_def)
    then show ?thesis using False out unfolding E_def k_def by (simp add: algebra_simps)
  next
    case True
    then have te: "getTime e = Some E" unfolding e_eq by (rule TimeClip_inRange)
    have De: "Day E = monthStart (k + 1) - 1" unfolding E_def by (rule Day_MakeDate_time)
    have Me: "monthOf (Day E) = k" unfolding De by (rule monthOf_month_end)
    have "DateFromTime E = Day E - monthStart k + 1"
      by (simp only: DateFromTime_def Me)
    then have ge: "DateFromTime E = daysInMonth k"
      by (simp add: De monthStart_Suc)
    have idx: "12 * YearFromTime E + MonthFromTime E = k" using month_index[of E] Me by simp
    have res: "addMonths d a = TimeClip (addMonthsTime t a)"
    proof (cases "DateFromTime t \<ge> daysInMonth k")
      case ge': True
      then have "addMonths d a = e"
        unfolding am by (simp add: getters_valid[OF te] ge jsGreaterEq_def)
      moreover have "min (DateFromTime t) (daysInMonth k) = daysInMonth k" using ge' by simp
      ultimately show ?thesis
        unfolding addMonthsTime_def k_def[symmetric] e_eq E_def by (simp add: monthStart_Suc)
    next
      case lt: False
      then have "addMonths d a
          = setFullYear d (Some (YearFromTime E)) (Some (MonthFromTime E)) (Some (DateFromTime t))"
        unfolding am by (simp add: getters_valid[OF te] ge jsGreaterEq_def)
      moreover have "min (DateFromTime t) (daysInMonth k) = DateFromTime t" using lt by simp
      ultimately show ?thesis
        unfolding addMonthsTime_def k_def[symmetric]
        by (simp add: setFullYear_def MakeDay_def idx t)
    qed
    show ?thesis using False True res unfolding E_def k_def by (simp add: algebra_simps)
  qed
qed

lemma addMonths_cases:
  assumes t: "getTime d = Some t"
  shows "getTime (addMonths d a) = None \<or> getTime (addMonths d a) = Some (addMonthsTime t a)"
proof (cases "a = 0")
  case True
  then show ?thesis using t by (simp add: addMonths_def addMonthsTime_0)
next
  case False
  then show ?thesis
    using TimeClip_cases[of "addMonthsTime t a"]
    by (auto simp add: addMonths_valid[OF t] getTime_InvalidDate)
qed

lemma addMonths_inRange:
  assumes t: "getTime d = Some t"
    and "inRange (MakeDate (monthStart (monthOf (Day t) + a + 1) - 1) (TimeWithinDay t))"
  shows "addMonths d a = TimeClip (addMonthsTime t a)"
  using assms TimeClip_getTime[OF t] by (simp add: addMonths_valid[OF t] addMonthsTime_0)

section \<open>The nth weekday of a month\<close>

text \<open>
  For a weekday from 0 to 6 each loop of \<open>getNthWeekdayInMonth\<close> ends after at most
  six steps when it starts at a date and the day it looks for is in range: the
  forward scan at the first day on or after its start that falls on the weekday, the
  backward scan at the last such day on or before its start. Started at the
  \<open>Invalid Date\<close>, or when it leaves the range on its way, a loop does not end.
\<close>

lemma mod7_pred:
  fixes w g :: int
  assumes "(w - g) mod 7 \<noteq> 0"
  shows "(w - (g + 1) mod 7) mod 7 = (w - g) mod 7 - 1"
proof -
  have "(w - (g + 1) mod 7) mod 7 = ((w - g) mod 7 - 1) mod 7"
    by (simp add: mod_simps algebra_simps)
  moreover have "0 \<le> (w - g) mod 7" "(w - g) mod 7 < 7" by simp_all
  then have "0 \<le> (w - g) mod 7 - 1" "(w - g) mod 7 - 1 < 7" using assms by linarith+
  then have "((w - g) mod 7 - 1) mod 7 = (w - g) mod 7 - 1" by (rule mod_pos_pos_trivial)
  ultimately show ?thesis by simp
qed

lemma mod7_zero_eq:
  fixes w g :: int
  assumes "0 \<le> w" "w < 7" "0 \<le> g" "g < 7"
  shows "(w - g) mod 7 = 0 \<longleftrightarrow> w = g"
  using assms by presburger

lemma mod7_pred_back:
  fixes w g :: int
  assumes "(g - w) mod 7 \<noteq> 0"
  shows "((g + - 1) mod 7 - w) mod 7 = (g - w) mod 7 - 1"
proof -
  have "((g + - 1) mod 7 - w) mod 7 = ((g - w) mod 7 - 1) mod 7"
    by (simp add: mod_simps algebra_simps)
  moreover have "0 \<le> (g - w) mod 7" "(g - w) mod 7 < 7" by simp_all
  then have "0 \<le> (g - w) mod 7 - 1" "(g - w) mod 7 - 1 < 7" using assms by linarith+
  then have "((g - w) mod 7 - 1) mod 7 = (g - w) mod 7 - 1" by (rule mod_pos_pos_trivial)
  ultimately show ?thesis by simp
qed

lemma scanForward_Some_valid:
  assumes "scanForward d weekday = Some r"
  shows "getTime d \<noteq> None"
proof (rule scanForward.raw_induct[where P = "\<lambda>d weekday r. getTime d \<noteq> None", OF _ assms])
  fix scan d weekday r
  assume IH: "\<And>d weekday r. scan d weekday = Some r \<Longrightarrow> getTime d \<noteq> None"
    and step: "(if getDay d \<noteq> Some weekday then scan (addDays d 1) weekday else Some d) = Some r"
  show "getTime d \<noteq> None"
  proof (cases "getDay d \<noteq> Some weekday")
    case True
    with step have v: "getTime (addDays d 1) \<noteq> None" using IH by simp
    show ?thesis
    proof
      assume "getTime d = None"
      then have "d = InvalidDate" by (rule getTime_None)
      then show False using v by (simp add: addDays_Invalid getTime_InvalidDate)
    qed
  next
    case False
    then show ?thesis by (auto simp add: getDay_def)
  qed
qed

lemma scanForward_Invalid: "scanForward InvalidDate weekday = None"
  using scanForward_Some_valid[of InvalidDate weekday]
  by (cases "scanForward InvalidDate weekday") (simp_all add: getTime_InvalidDate)

lemma scanBackward_Some_valid:
  assumes "scanBackward d weekday = Some r"
  shows "getTime d \<noteq> None"
proof (rule scanBackward.raw_induct[where P = "\<lambda>d weekday r. getTime d \<noteq> None", OF _ assms])
  fix scan d weekday r
  assume IH: "\<And>d weekday r. scan d weekday = Some r \<Longrightarrow> getTime d \<noteq> None"
    and step: "(if getDay d \<noteq> Some weekday then scan (addDays d (- 1)) weekday else Some d) = Some r"
  show "getTime d \<noteq> None"
  proof (cases "getDay d \<noteq> Some weekday")
    case True
    with step have v: "getTime (addDays d (- 1)) \<noteq> None" using IH by simp
    show ?thesis
    proof
      assume "getTime d = None"
      then have "d = InvalidDate" by (rule getTime_None)
      then show False using v by (simp add: addDays_Invalid getTime_InvalidDate)
    qed
  next
    case False
    then show ?thesis by (auto simp add: getDay_def)
  qed
qed

lemma scanBackward_Invalid: "scanBackward InvalidDate weekday = None"
  using scanBackward_Some_valid[of InvalidDate weekday]
  by (cases "scanBackward InvalidDate weekday") (simp_all add: getTime_InvalidDate)

lemma scanForward_closed:
  assumes w: "0 \<le> weekday" "weekday \<le> 6" and t: "getTime d = Some t"
  shows "scanForward d weekday =
     (if inRange (t + (weekday - WeekDay t) mod 7 * msPerDay)
      then Some (TimeClip (t + (weekday - WeekDay t) mod 7 * msPerDay)) else None)"
  using t
proof (induction "nat ((weekday - WeekDay t) mod 7)" arbitrary: d t)
  case 0
  then have z: "(weekday - WeekDay t) mod 7 = 0" by simp
  moreover from this have "WeekDay t = weekday"
    using mod7_zero_eq[of weekday "WeekDay t"] w WeekDay_range[of t] by simp
  ultimately show ?case
    using getTime_inRange[OF 0(2)] TimeClip_getTime[OF 0(2)]
    by (simp add: scanForward.simps[of d] getters_valid[OF 0(2)])
next
  case (Suc n)
  note t = Suc.prems
  then have nz: "(weekday - WeekDay t) mod 7 \<noteq> 0" using Suc.hyps(2) by linarith
  then have ne: "WeekDay t \<noteq> weekday" by auto
  have unf: "scanForward d weekday = scanForward (addDays d 1) weekday"
    using ne by (simp add: scanForward.simps[of d] getters_valid[OF t])
  have ad: "addDays d 1 = TimeClip (t + msPerDay)" using addDays_valid[OF t, of 1] by simp
  have step: "(weekday - WeekDay (t + msPerDay)) mod 7 = (weekday - WeekDay t) mod 7 - 1"
    using WeekDay_add_days[of t 1] mod7_pred[OF nz] by simp
  have ge1: "1 \<le> (weekday - WeekDay t) mod 7" using nz by (simp add: order_less_le)
  show ?case
  proof (cases "inRange (t + msPerDay)")
    case True
    then have t': "getTime (addDays d 1) = Some (t + msPerDay)"
      unfolding ad by (rule TimeClip_inRange)
    have "n = nat ((weekday - WeekDay (t + msPerDay)) mod 7)" using Suc.hyps(2) step by linarith
    from Suc.hyps(1)[OF this t']
    show ?thesis unfolding unf step by (simp add: algebra_simps)
  next
    case False
    have "\<not> inRange (t + (weekday - WeekDay t) mod 7 * msPerDay)"
    proof
      assume "inRange (t + (weekday - WeekDay t) mod 7 * msPerDay)"
      from inRange_addDays_mono[OF getTime_inRange[OF t] _ ge1 this] False
      show False by simp
    qed
    then show ?thesis
      unfolding unf ad using False by (simp add: TimeClip_out scanForward_Invalid)
  qed
qed

lemma inRange_addDays_mono_back:
  assumes "inRange t" and "0 \<le> a" and "a \<le> b" and "inRange (t - b * msPerDay)"
  shows "inRange (t - a * msPerDay)"
proof -
  have "0 \<le> a * msPerDay" using assms(2) msPerDay_pos by simp
  then have 1: "t - a * msPerDay \<le> t" by linarith
  have "a * msPerDay \<le> b * msPerDay" using assms(3) msPerDay_pos by simp
  then have 2: "t - b * msPerDay \<le> t - a * msPerDay" by linarith
  show ?thesis by (rule inRange_between[OF assms(4,1) 2 1])
qed

lemma scanBackward_closed:
  assumes w: "0 \<le> weekday" "weekday \<le> 6" and t: "getTime d = Some t"
  shows "scanBackward d weekday =
     (if inRange (t - (WeekDay t - weekday) mod 7 * msPerDay)
      then Some (TimeClip (t - (WeekDay t - weekday) mod 7 * msPerDay)) else None)"
  using t
proof (induction "nat ((WeekDay t - weekday) mod 7)" arbitrary: d t)
  case 0
  then have z: "(WeekDay t - weekday) mod 7 = 0" by simp
  moreover from this have "WeekDay t = weekday"
    using mod7_zero_eq[of "WeekDay t" weekday] w WeekDay_range[of t] by simp
  ultimately show ?case
    using getTime_inRange[OF 0(2)] TimeClip_getTime[OF 0(2)]
    by (simp add: scanBackward.simps[of d] getters_valid[OF 0(2)])
next
  case (Suc n)
  note t = Suc.prems
  then have nz: "(WeekDay t - weekday) mod 7 \<noteq> 0" using Suc.hyps(2) by linarith
  then have ne: "WeekDay t \<noteq> weekday" by auto
  have unf: "scanBackward d weekday = scanBackward (addDays d (- 1)) weekday"
    using ne by (simp add: scanBackward.simps[of d] getters_valid[OF t])
  have ad: "addDays d (- 1) = TimeClip (t - msPerDay)" using addDays_valid[OF t, of "- 1"] by simp
  have "WeekDay (t - msPerDay) = (WeekDay t + - 1) mod 7"
    using WeekDay_add_days[of t "- 1"] by simp
  then have step: "(WeekDay (t - msPerDay) - weekday) mod 7 = (WeekDay t - weekday) mod 7 - 1"
    using mod7_pred_back[OF nz] by simp
  have ge1: "1 \<le> (WeekDay t - weekday) mod 7" using nz by (simp add: order_less_le)
  show ?case
  proof (cases "inRange (t - msPerDay)")
    case True
    then have t': "getTime (addDays d (- 1)) = Some (t - msPerDay)"
      unfolding ad by (rule TimeClip_inRange)
    have "n = nat ((WeekDay (t - msPerDay) - weekday) mod 7)" using Suc.hyps(2) step by linarith
    from Suc.hyps(1)[OF this t']
    show ?thesis unfolding unf step by (simp add: algebra_simps)
  next
    case False
    have "\<not> inRange (t - (WeekDay t - weekday) mod 7 * msPerDay)"
    proof
      assume "inRange (t - (WeekDay t - weekday) mod 7 * msPerDay)"
      from inRange_addDays_mono_back[OF getTime_inRange[OF t] _ ge1 this] False
      show False by simp
    qed
    then show ?thesis
      unfolding unf ad using False by (simp add: TimeClip_out scanBackward_Invalid)
  qed
qed

lemma ctor_month_index:
  "12 * (if 0 \<le> YearFromTime t \<and> YearFromTime t \<le> 99 then 1900 + YearFromTime t
         else YearFromTime t) + MonthFromTime t = ctorMonth t"
proof (cases "0 \<le> YearFromTime t \<and> YearFromTime t \<le> 99")
  case True
  then show ?thesis using month_index[of t] by (simp add: ctorMonth_def algebra_simps)
next
  case False
  then show ?thesis using month_index[of t] by (simp add: ctorMonth_def algebra_simps)
qed

lemma newDate_first:
  "newDate (YearFromTime t) (MonthFromTime t) 1 = TimeClip (MakeDate (monthStart (ctorMonth t)) 0)"
  by (simp only: newDate_def MakeDay_def ctor_month_index, simp)

lemma newDate_last:
  "newDate (YearFromTime t) (MonthFromTime t + 1) 0 =
     TimeClip (MakeDate (monthStart (ctorMonth t + 1) - 1) 0)"
proof -
  have "12 * (if 0 \<le> YearFromTime t \<and> YearFromTime t \<le> 99 then 1900 + YearFromTime t
         else YearFromTime t) + (MonthFromTime t + 1) = ctorMonth t + 1"
    using ctor_month_index[of t] by linarith
  then show ?thesis by (simp only: newDate_def MakeDay_def, simp)
qed

lemma getNthWeekdayInMonth_Invalid: "getNthWeekdayInMonth InvalidDate week weekday = None"
  by (simp add: getNthWeekdayInMonth_def getters_Invalid scanForward_Invalid)

lemma scan_TimeClip:
  assumes w: "0 \<le> weekday" "weekday \<le> 6"
  shows "scanForward (TimeClip F) weekday =
           (if inRange F \<and> inRange (F + (weekday - WeekDay F) mod 7 * msPerDay)
            then Some (TimeClip (F + (weekday - WeekDay F) mod 7 * msPerDay)) else None)"
    and "scanBackward (TimeClip F) weekday =
           (if inRange F \<and> inRange (F - (WeekDay F - weekday) mod 7 * msPerDay)
            then Some (TimeClip (F - (WeekDay F - weekday) mod 7 * msPerDay)) else None)"
proof -
  show "scanForward (TimeClip F) weekday =
           (if inRange F \<and> inRange (F + (weekday - WeekDay F) mod 7 * msPerDay)
            then Some (TimeClip (F + (weekday - WeekDay F) mod 7 * msPerDay)) else None)"
  proof (cases "inRange F")
    case True
    from scanForward_closed[OF w TimeClip_inRange[OF True]] True show ?thesis by simp
  next
    case False
    then show ?thesis by (simp add: TimeClip_out scanForward_Invalid)
  qed
  show "scanBackward (TimeClip F) weekday =
           (if inRange F \<and> inRange (F - (WeekDay F - weekday) mod 7 * msPerDay)
            then Some (TimeClip (F - (WeekDay F - weekday) mod 7 * msPerDay)) else None)"
  proof (cases "inRange F")
    case True
    from scanBackward_closed[OF w TimeClip_inRange[OF True]] True show ?thesis by simp
  next
    case False
    then show ?thesis by (simp add: TimeClip_out scanBackward_Invalid)
  qed
qed

text \<open>
  \<open>getNthWeekdayInMonth\<close> in closed form: \<open>F\<close> and \<open>L\<close> are midnight of the first and
  of the last day of the month addressed.
\<close>

lemma getNthWeekdayInMonth_closed:
  assumes w: "0 \<le> weekday" "weekday \<le> 6" and t: "getTime date = Some t"
    and F: "F = MakeDate (monthStart (ctorMonth t)) 0"
    and L: "L = MakeDate (monthStart (ctorMonth t + 1) - 1) 0"
    and f: "f = (weekday - WeekDay F) mod 7"
    and b: "b = (WeekDay L - weekday) mod 7"
  shows "getNthWeekdayInMonth date week weekday =
     (if inRange F \<and> inRange (F + f * msPerDay) then
        (case week of
           First \<Rightarrow> Some (TimeClip (F + f * msPerDay))
         | Second \<Rightarrow> Some (TimeClip (F + (f + 7) * msPerDay))
         | Third \<Rightarrow> Some (TimeClip (F + (f + 14) * msPerDay))
         | Fourth \<Rightarrow> Some (TimeClip (F + (f + 21) * msPerDay))
         | Last \<Rightarrow>
             if inRange L \<and> inRange (L - b * msPerDay) then Some (TimeClip (L - b * msPerDay))
             else None)
      else None)"
proof -
  have nf: "newDate (YearFromTime t) (MonthFromTime t) 1 = TimeClip F"
    unfolding F by (rule newDate_first)
  have nl: "newDate (YearFromTime t) (MonthFromTime t + 1) 0 = TimeClip L"
    unfolding L by (rule newDate_last)
  have g: "getNthWeekdayInMonth date week weekday =
      (case scanForward (TimeClip F) weekday of
         None \<Rightarrow> None
       | Some firstWeekday \<Rightarrow>
           (case week of
              First \<Rightarrow> Some firstWeekday
            | Second \<Rightarrow> Some (addDays firstWeekday 7)
            | Third \<Rightarrow> Some (addDays firstWeekday 14)
            | Fourth \<Rightarrow> Some (addDays firstWeekday 21)
            | Last \<Rightarrow> scanBackward (TimeClip L) weekday))"
    by (simp add: getNthWeekdayInMonth_def getters_valid[OF t] nf nl)
  show ?thesis
  proof (cases "inRange F \<and> inRange (F + f * msPerDay)")
    case False
    then have "scanForward (TimeClip F) weekday = None"
      using scan_TimeClip(1)[OF w, of F] unfolding f by auto
    then show ?thesis unfolding g by (simp only: False if_False option.case)
  next
    case True
    then have sf: "scanForward (TimeClip F) weekday = Some (TimeClip (F + f * msPerDay))"
      using scan_TimeClip(1)[OF w, of F] unfolding f by auto
    have sb: "scanBackward (TimeClip L) weekday =
        (if inRange L \<and> inRange (L - b * msPerDay) then Some (TimeClip (L - b * msPerDay))
         else None)"
      using scan_TimeClip(2)[OF w, of L] unfolding b by simp
    from True have fw: "getTime (TimeClip (F + f * msPerDay)) = Some (F + f * msPerDay)"
      by (simp add: TimeClip_inRange)
    have ad: "addDays (TimeClip (F + f * msPerDay)) a = TimeClip (F + (f + a) * msPerDay)" for a
      unfolding addDays_valid[OF fw] by (simp add: algebra_simps)
    show ?thesis
      unfolding g sf using True by (cases week) (simp_all add: ad sb)
  qed
qed

text \<open>
  Where a date that \<open>getNthWeekdayInMonth\<close> returns lies: in the month addressed, at
  midnight, on the weekday, and in the week of the month asked for.
\<close>

lemma getDay_scan_forward:
  fixes w g :: int
  assumes "0 \<le> w" "w \<le> 6"
  shows "(g + (w - g) mod 7) mod 7 = w"
proof -
  have "(g + (w - g) mod 7) mod 7 = w mod 7" by (simp add: mod_simps)
  then show ?thesis using assms by simp
qed

lemma getDay_scan_backward:
  fixes w g :: int
  assumes "0 \<le> w" "w \<le> 6"
  shows "(g + - ((g - w) mod 7)) mod 7 = w"
proof -
  have "(g + - ((g - w) mod 7)) mod 7 = (g - (g - w) mod 7) mod 7" by simp
  also have "\<dots> = (g - (g - w)) mod 7" by (simp only: mod_diff_right_eq)
  finally show ?thesis using assms by simp
qed

lemma midnight_plus:
  "Day (MakeDate d 0 + a * msPerDay) = d + a" "TimeWithinDay (MakeDate d 0 + a * msPerDay) = 0"
  "WeekDay (MakeDate d 0 + a * msPerDay) = (WeekDay (MakeDate d 0) + a) mod 7"
  by (simp_all add: Day_add_days TimeWithinDay_add_days WeekDay_add_days Day_MakeDate_0
      TimeWithinDay_MakeDate_0)

lemma nth_forward:
  assumes w: "0 \<le> weekday" "weekday \<le> 6"
    and F: "F = MakeDate (monthStart k) 0" and f: "f = (weekday - WeekDay F) mod 7"
    and i: "0 \<le> i" "i \<le> 3" and u: "u = F + (f + 7 * i) * msPerDay"
  shows "TimeWithinDay u = 0" "WeekDay u = weekday" "monthOf (Day u) = k"
    "DateFromTime u = f + 7 * i + 1"
proof -
  have fr: "0 \<le> f" "f \<le> 6" by (simp_all add: f)
  have dim: "28 \<le> daysInMonth k" by (rule daysInMonth_ge)
  have D: "Day u = monthStart k + (f + 7 * i + 1) - 1"
    unfolding u F midnight_plus by simp
  show M: "monthOf (Day u) = k"
    unfolding D using fr i dim by (intro monthOf_in_month) linarith+
  have "WeekDay u = (WeekDay F + f + 7 * i) mod 7"
    unfolding u F midnight_plus by (simp add: algebra_simps)
  also have "\<dots> = (WeekDay F + f) mod 7" by (rule mod_mult_self2)
  finally show "WeekDay u = weekday"
    using getDay_scan_forward[OF w, of "WeekDay F"] by (simp add: f)
  have "DateFromTime u = Day u - monthStart k + 1"
    by (simp only: DateFromTime_def M)
  then show "DateFromTime u = f + 7 * i + 1" by (simp add: D)
  show "TimeWithinDay u = 0" unfolding u F by (rule midnight_plus)
qed

lemma nth_backward:
  assumes w: "0 \<le> weekday" "weekday \<le> 6"
    and L: "L = MakeDate (monthStart (k + 1) - 1) 0" and b: "b = (WeekDay L - weekday) mod 7"
    and u: "u = L - b * msPerDay"
  shows "TimeWithinDay u = 0" "WeekDay u = weekday" "monthOf (Day u) = k"
    "DateFromTime u = daysInMonth k - b"
proof -
  have br: "0 \<le> b" "b \<le> 6" by (simp_all add: b)
  have dim: "28 \<le> daysInMonth k" by (rule daysInMonth_ge)
  have u': "u = L + (- b) * msPerDay" unfolding u by simp
  have D: "Day u = monthStart k + (daysInMonth k - b) - 1"
    unfolding u' L midnight_plus by (simp add: monthStart_Suc)
  show M: "monthOf (Day u) = k"
    unfolding D using br dim by (intro monthOf_in_month) linarith+
  have "WeekDay u = (WeekDay L + - b) mod 7"
    unfolding u' L by (rule midnight_plus)
  then show "WeekDay u = weekday"
    unfolding b using getDay_scan_backward[OF w, of "WeekDay L"] by simp
  have "DateFromTime u = Day u - monthStart k + 1"
    by (simp only: DateFromTime_def M)
  then show "DateFromTime u = daysInMonth k - b" by (simp add: D)
  show "TimeWithinDay u = 0" unfolding u' L by (rule midnight_plus)
qed

lemma getNthWeekdayInMonth_props:
  assumes w: "0 \<le> weekday" "weekday \<le> 6" and t: "getTime date = Some t"
    and r: "getNthWeekdayInMonth date week weekday = Some r" and u: "getTime r = Some u"
  shows "TimeWithinDay u = 0 \<and> WeekDay u = weekday \<and> monthOf (Day u) = ctorMonth t
         \<and> (case week of
               First \<Rightarrow> 1 \<le> DateFromTime u \<and> DateFromTime u \<le> 7
             | Second \<Rightarrow> 8 \<le> DateFromTime u \<and> DateFromTime u \<le> 14
             | Third \<Rightarrow> 15 \<le> DateFromTime u \<and> DateFromTime u \<le> 21
             | Fourth \<Rightarrow> 22 \<le> DateFromTime u \<and> DateFromTime u \<le> 28
             | Last \<Rightarrow> daysInMonth (ctorMonth t) - 6 \<le> DateFromTime u
                       \<and> DateFromTime u \<le> daysInMonth (ctorMonth t))"
proof -
  define k where "k = ctorMonth t"
  define F where "F = MakeDate (monthStart k) 0"
  define L where "L = MakeDate (monthStart (k + 1) - 1) 0"
  define f where "f = (weekday - WeekDay F) mod 7"
  define b where "b = (WeekDay L - weekday) mod 7"
  have fr: "0 \<le> f" "f \<le> 6" by (simp_all add: f_def)
  have br: "0 \<le> b" "b \<le> 6" by (simp_all add: b_def)
  note cl = getNthWeekdayInMonth_closed[OF w t F_def[unfolded k_def] L_def[unfolded k_def]
      f_def b_def, of week]
  note fw = nth_forward[OF w F_def f_def]
  note bw = nth_backward[OF w L_def b_def]
  have val: "TimeClip x = r \<Longrightarrow> u = x" for x
    using u TimeClip_cases[of x] by auto
  show ?thesis
  proof (cases week)
    case First
    with r cl have "TimeClip (F + f * msPerDay) = r" by (simp split: if_splits)
    then have "u = F + (f + 7 * 0) * msPerDay" using val by simp
    from fw[OF _ _ this] show ?thesis using First fr unfolding k_def by simp
  next
    case Second
    with r cl have "TimeClip (F + (f + 7) * msPerDay) = r" by (simp split: if_splits)
    then have "u = F + (f + 7 * 1) * msPerDay" using val by simp
    from fw[OF _ _ this] show ?thesis using Second fr unfolding k_def by simp
  next
    case Third
    with r cl have "TimeClip (F + (f + 14) * msPerDay) = r" by (simp split: if_splits)
    then have "u = F + (f + 7 * 2) * msPerDay" using val by simp
    from fw[OF _ _ this] show ?thesis using Third fr unfolding k_def by simp
  next
    case Fourth
    with r cl have "TimeClip (F + (f + 21) * msPerDay) = r" by (simp split: if_splits)
    then have "u = F + (f + 7 * 3) * msPerDay" using val by simp
    from fw[OF _ _ this] show ?thesis using Fourth fr unfolding k_def by simp
  next
    case Last
    with r cl have "TimeClip (L - b * msPerDay) = r" by (simp split: if_splits)
    then have "u = L - b * msPerDay" using val by simp
    from bw[OF this] show ?thesis using Last br unfolding k_def by simp
  qed
qed

text \<open>
  When the month addressed lies in the range of \<open>Date\<close>, from midnight of its first
  day to midnight of its last, \<open>getNthWeekdayInMonth\<close> returns a date.
\<close>

lemma getNthWeekdayInMonth_returns:
  assumes w: "0 \<le> weekday" "weekday \<le> 6" and t: "getTime date = Some t"
    and rF: "inRange (MakeDate (monthStart (ctorMonth t)) 0)"
    and rL: "inRange (MakeDate (monthStart (ctorMonth t + 1) - 1) 0)"
  shows "\<exists>u. getNthWeekdayInMonth date week weekday = Some (TimeClip u) \<and> inRange u"
proof -
  define k where "k = ctorMonth t"
  define F where "F = MakeDate (monthStart k) 0"
  define L where "L = MakeDate (monthStart (k + 1) - 1) 0"
  define f where "f = (weekday - WeekDay F) mod 7"
  define b where "b = (WeekDay L - weekday) mod 7"
  have fr: "0 \<le> f" "f \<le> 6" by (simp_all add: f_def)
  have br: "0 \<le> b" "b \<le> 6" by (simp_all add: b_def)
  have dim: "28 \<le> daysInMonth k" by (rule daysInMonth_ge)
  note cl = getNthWeekdayInMonth_closed[OF w t F_def[unfolded k_def] L_def[unfolded k_def]
      f_def b_def, of week]
  have iF: "inRange F" using rF unfolding F_def k_def .
  have iL: "inRange L" using rL unfolding L_def k_def .
  have "monthStart (k + 1) - 1 = monthStart k + (daysInMonth k - 1)"
    by (simp add: monthStart_Suc)
  then have LF: "L = F + (daysInMonth k - 1) * msPerDay"
    unfolding L_def F_def by (simp add: MakeDate_def algebra_simps)
  have iL': "inRange (F + (daysInMonth k - 1) * msPerDay)" using iL LF by simp
  have fwd: "inRange (F + j * msPerDay)" if "0 \<le> j" "j \<le> 27" for j
    using that dim by (intro inRange_addDays_mono[OF iF _ _ iL']) linarith+
  have "L - b * msPerDay = F + (daysInMonth k - 1 - b) * msPerDay"
    unfolding LF by (simp add: algebra_simps)
  moreover have "inRange (F + (daysInMonth k - 1 - b) * msPerDay)"
    using br dim by (intro inRange_addDays_mono[OF iF _ _ iL']) linarith+
  ultimately have bwd: "inRange (L - b * msPerDay)" by simp
  show ?thesis
  proof (cases week)
    case First
    then show ?thesis using cl iF fwd[of f] fr by auto
  next
    case Second
    then show ?thesis using cl iF fwd[of f] fwd[of "f + 7"] fr by auto
  next
    case Third
    then show ?thesis using cl iF fwd[of f] fwd[of "f + 14"] fr by auto
  next
    case Fourth
    then show ?thesis using cl iF fwd[of f] fwd[of "f + 21"] fr by auto
  next
    case Last
    then show ?thesis using cl iF iL fwd[of f] bwd fr by auto
  qed
qed

section \<open>The generator of the date picker\<close>

subsection \<open>One step\<close>

lemma jsRem_7_ge: "- 6 \<le> jsRem a 7"
proof -
  have r: "0 \<le> \<bar>a\<bar> mod 7" "\<bar>a\<bar> mod 7 \<le> 6" by simp_all
  consider "a < 0" | "a = 0" | "0 < a" by linarith
  then show ?thesis
  proof cases
    case 1
    then show ?thesis using r by (simp add: jsRem_def)
  next
    case 2
    then show ?thesis by (simp add: jsRem_def)
  next
    case 3
    then show ?thesis using r by (simp add: jsRem_def)
  qed
qed

lemma jsRem_nonneg: "0 \<le> a \<Longrightarrow> jsRem a 7 = a mod 7"
  by (cases "a = 0") (simp_all add: jsRem_def)

lemma later_month:
  assumes "monthOf a < monthOf b"
  shows "a < b"
proof -
  have "a < monthStart (monthOf a + 1)" by (rule monthOf_gt)
  also have "\<dots> \<le> monthStart (monthOf b)" using assms by (intro monthStart_mono) simp
  also have "\<dots> \<le> b" by (rule monthOf_le)
  finally show ?thesis .
qed

text \<open>A date that a setter or a function of date-fns returns came from a date.\<close>

lemma valid_of_addDays:
  assumes "getTime (addDays d a) = Some u"
  shows "\<exists>t. getTime d = Some t \<and> u = t + a * msPerDay"
proof (cases "getTime d")
  case None
  then show ?thesis using assms getTime_None[OF None] by (simp add: addDays_Invalid)
next
  case (Some t)
  then show ?thesis
    using assms TimeClip_cases[of "t + a * msPerDay"] by (simp add: addDays_valid[OF Some])
qed

lemma valid_of_addMonths:
  assumes "getTime (addMonths d a) = Some u"
  shows "\<exists>t. getTime d = Some t \<and> u = addMonthsTime t a"
proof (cases "getTime d")
  case None
  then show ?thesis using assms getTime_None[OF None] by (simp add: addMonths_Invalid)
next
  case (Some t)
  then show ?thesis using assms addMonths_cases[OF Some, of a] by simp
qed

lemma valid_of_setDate:
  assumes "getTime (setDate d (Some v)) = Some u"
  shows "\<exists>t. getTime d = Some t
           \<and> u = MakeDate (monthStart (monthOf (Day t)) + v - 1) (TimeWithinDay t)"
proof (cases "getTime d")
  case None
  then show ?thesis using assms getTime_None[OF None] by (simp add: setDate_Invalid)
next
  case (Some t)
  then show ?thesis
    using assms TimeClip_cases[of "MakeDate (monthStart (monthOf (Day t)) + v - 1) (TimeWithinDay t)"]
    by (simp add: setDate_valid[OF Some])
qed

lemma addMonthsTime_later:
  assumes "1 \<le> a"
  shows "Day t < monthStart (monthOf (Day (addMonthsTime t a)))"
proof -
  have "Day t < monthStart (monthOf (Day t) + 1)" by (rule monthOf_gt)
  also have "\<dots> \<le> monthStart (monthOf (Day t) + a)" using assms by (intro monthStart_mono) simp
  finally show ?thesis by (simp only: monthOf_addMonthsTime)
qed

lemma addMonthsTime_progress: "1 \<le> a \<Longrightarrow> Day t < Day (addMonthsTime t a)"
  using addMonthsTime_later[of a t] monthOf_le[of "Day (addMonthsTime t a)"] by linarith

lemma advance_Daily: "type rule = Daily \<Longrightarrow> advance rule cur = Some (addDays cur (interval rule))"
  by (simp add: advance_def)

lemma advance_Yearly: "type rule = Yearly \<Longrightarrow> advance rule cur = Some (addYears cur (interval rule))"
  by (simp add: advance_def)

lemma advance_Custom: "type rule = Custom \<Longrightarrow> advance rule cur = Some cur"
  by (simp add: advance_def)

lemma advance_Weekly_flat:
  "type rule = Weekly \<Longrightarrow> daysOfWeek rule = None \<or> daysOfWeek rule = Some [] \<Longrightarrow>
     advance rule cur = Some (addDays cur (7 * interval rule))"
  by (auto simp: advance_def Let_def)

lemma advance_Weekly_days:
  "type rule = Weekly \<Longrightarrow> daysOfWeek rule = Some (d # ds) \<Longrightarrow>
     getDay (addDays cur (7 * interval rule)) = Some g \<Longrightarrow>
     advance rule cur =
       Some (addDays (addDays cur (7 * interval rule)) (jsRem (nextDay (d # ds) g - g + 7) 7))"
  by (simp add: advance_def Let_def)

lemma advance_Weekly_days_Invalid:
  "type rule = Weekly \<Longrightarrow> daysOfWeek rule = Some (d # ds) \<Longrightarrow>
     getDay (addDays cur (7 * interval rule)) = None \<Longrightarrow>
     advance rule cur = Some InvalidDate"
  by (simp add: advance_def Let_def)

lemma advance_Monthly_day:
  "type rule = Monthly \<Longrightarrow> monthDay rule = Some md \<Longrightarrow> md \<noteq> 0 \<Longrightarrow>
     advance rule cur = Some (setDate (addMonths cur (interval rule)) (Some md))"
  by (simp add: advance_def)

lemma advance_Monthly_weekday:
  "type rule = Monthly \<Longrightarrow> monthDay rule = None \<or> monthDay rule = Some 0 \<Longrightarrow>
     monthWeek rule = Some mw \<Longrightarrow> monthWeekDay rule = Some wd \<Longrightarrow>
     advance rule cur = getNthWeekdayInMonth (addMonths cur (interval rule)) mw wd"
  by (auto simp: advance_def)

lemma advance_Monthly_same:
  "type rule = Monthly \<Longrightarrow> monthDay rule = None \<or> monthDay rule = Some 0 \<Longrightarrow>
     monthWeek rule = None \<or> monthWeekDay rule = None \<Longrightarrow>
     advance rule cur = Some (addMonths cur (interval rule))"
  by (auto simp: advance_def)

text \<open>
  Every branch but the one of \<open>getNthWeekdayInMonth\<close> returns, whatever the rule and
  the date.
\<close>

lemma advance_returns:
  assumes "\<not> byNthWeekday rule"
  shows "\<exists>nxt. advance rule cur = Some nxt"
proof (cases "type rule")
  case Daily
  then show ?thesis by (simp add: advance_Daily)
next
  case Weekly
  show ?thesis
  proof (cases "daysOfWeek rule")
    case None
    then show ?thesis using Weekly by (simp add: advance_Weekly_flat)
  next
    case (Some days)
    show ?thesis
    proof (cases days)
      case Nil
      then show ?thesis using Weekly Some by (simp add: advance_Weekly_flat)
    next
      case (Cons d ds)
      show ?thesis
      proof (cases "getDay (addDays cur (7 * interval rule))")
        case None
        from advance_Weekly_days_Invalid[OF Weekly _ None, of d ds] Some Cons
        show ?thesis by simp
      next
        case g: (Some g)
        from advance_Weekly_days[OF Weekly _ g, of d ds] Some Cons
        show ?thesis by simp
      qed
    qed
  qed
next
  case Monthly
  show ?thesis
  proof (cases "monthDay rule = None \<or> monthDay rule = Some 0")
    case False
    then obtain d where d: "monthDay rule = Some d" "d \<noteq> 0" by auto
    then show ?thesis using Monthly by (simp add: advance_Monthly_day)
  next
    case True
    then have "monthWeek rule = None \<or> monthWeekDay rule = None"
      using assms Monthly by (auto simp add: byNthWeekday_def)
    then show ?thesis using Monthly True by (simp add: advance_Monthly_same)
  qed
next
  case Yearly
  then show ?thesis by (simp add: advance_Yearly)
next
  case Custom
  then show ?thesis by (simp add: advance_Custom)
qed

text \<open>
  With an interval of at least 1 a step that returns a date started at a date and
  ends on a later calendar day.
\<close>

lemma advance_progress:
  assumes i: "1 \<le> interval rule" and ty: "type rule \<noteq> Custom"
    and md: "\<And>d. type rule = Monthly \<Longrightarrow> monthDay rule = Some d \<Longrightarrow> 0 \<le> d"
    and mw: "\<And>w. type rule = Monthly \<Longrightarrow> monthWeekDay rule = Some w \<Longrightarrow> 0 \<le> w \<and> w \<le> 6"
    and adv: "advance rule cur = Some nxt" and u: "getTime nxt = Some u"
  shows "\<exists>t. getTime cur = Some t \<and> Day t < Day u"
proof (cases "type rule")
  case Daily
  then have "nxt = addDays cur (interval rule)" using adv by (simp add: advance_Daily)
  from valid_of_addDays[OF u[unfolded this]] show ?thesis using i by (auto simp add: Day_add_days)
next
  case Weekly
  have flat: ?thesis if "advance rule cur = Some (addDays cur (7 * interval rule))"
  proof -
    from that adv have "nxt = addDays cur (7 * interval rule)" by simp
    from valid_of_addDays[OF u[unfolded this]] show ?thesis using i by (auto simp add: Day_add_days)
  qed
  show ?thesis
  proof (cases "daysOfWeek rule")
    case None
    then show ?thesis using Weekly by (intro flat advance_Weekly_flat) simp_all
  next
    case (Some days)
    show ?thesis
    proof (cases days)
      case Nil
      then show ?thesis using Weekly Some by (intro flat advance_Weekly_flat) simp_all
    next
      case (Cons d ds)
      show ?thesis
      proof (cases "getDay (addDays cur (7 * interval rule))")
        case None
        from advance_Weekly_days_Invalid[OF Weekly _ None, of d ds] Some Cons adv
        have "nxt = InvalidDate" by simp
        then show ?thesis using u by (simp add: getTime_InvalidDate)
      next
        case g: (Some g)
        define j where "j = jsRem (nextDay (d # ds) g - g + 7) 7"
        have j: "- 6 \<le> j" unfolding j_def by (rule jsRem_7_ge)
        from advance_Weekly_days[OF Weekly _ g, of d ds] Some Cons adv
        have "nxt = addDays (addDays cur (7 * interval rule)) j" by (simp add: j_def)
        from valid_of_addDays[OF u[unfolded this]]
        obtain tj where tj: "getTime (addDays cur (7 * interval rule)) = Some tj"
          and utj: "u = tj + j * msPerDay" by blast
        from valid_of_addDays[OF tj]
        obtain t where t: "getTime cur = Some t" and tjt: "tj = t + 7 * interval rule * msPerDay"
          by blast
        have "Day u = Day t + 7 * interval rule + j"
          unfolding utj tjt by (simp only: Day_add_days)
        then show ?thesis using t i j by simp
      qed
    qed
  qed
next
  case Monthly
  show ?thesis
  proof (cases "monthDay rule = None \<or> monthDay rule = Some 0")
    case False
    then obtain d where d: "monthDay rule = Some d" "d \<noteq> 0" by auto
    then have d1: "1 \<le> d" using md[OF Monthly, of d] by linarith
    from advance_Monthly_day[OF Monthly d] adv
    have "nxt = setDate (addMonths cur (interval rule)) (Some d)" by simp
    from valid_of_setDate[OF u[unfolded this]]
    obtain tm where tm: "getTime (addMonths cur (interval rule)) = Some tm"
      and utm: "u = MakeDate (monthStart (monthOf (Day tm)) + d - 1) (TimeWithinDay tm)" by blast
    from valid_of_addMonths[OF tm]
    obtain t where t: "getTime cur = Some t" and tmt: "tm = addMonthsTime t (interval rule)"
      by blast
    have "Day u = monthStart (monthOf (Day tm)) + d - 1" unfolding utm by (rule Day_MakeDate_time)
    then have "Day t < Day u" using addMonthsTime_later[OF i, of t] d1 unfolding tmt by linarith
    then show ?thesis using t by simp
  next
    case noDay: True
    show ?thesis
    proof (cases "monthWeek rule = None \<or> monthWeekDay rule = None")
      case True
      from advance_Monthly_same[OF Monthly noDay True] adv
      have "nxt = addMonths cur (interval rule)" by simp
      from valid_of_addMonths[OF u[unfolded this]]
      show ?thesis using addMonthsTime_progress[OF i] by auto
    next
      case False
      then obtain w wd where w: "monthWeek rule = Some w" "monthWeekDay rule = Some wd" by auto
      have wr: "0 \<le> wd" "wd \<le> 6" using mw[OF Monthly w(2)] by simp_all
      from advance_Monthly_weekday[OF Monthly noDay w] adv
      have g: "getNthWeekdayInMonth (addMonths cur (interval rule)) w wd = Some nxt" by simp
      obtain tm where tm: "getTime (addMonths cur (interval rule)) = Some tm"
      proof (cases "getTime (addMonths cur (interval rule))")
        case None
        from getTime_None[OF this] g show ?thesis by (simp add: getNthWeekdayInMonth_Invalid)
      next
        case (Some tm)
        then show ?thesis by (rule that)
      qed
      from valid_of_addMonths[OF tm]
      obtain t where t: "getTime cur = Some t" and tmt: "tm = addMonthsTime t (interval rule)"
        by blast
      from getNthWeekdayInMonth_props[OF wr tm g u]
      have m: "monthOf (Day u) = ctorMonth tm" by simp
      have "monthOf (Day tm) \<le> monthOf (Day u)" unfolding m ctorMonth_def by simp
      then have "monthStart (monthOf (Day tm)) \<le> Day u"
        using monthStart_mono monthOf_le[of "Day u"] by (meson order_trans)
      then have "Day t < Day u" using addMonthsTime_later[OF i, of t] unfolding tmt by linarith
      then show ?thesis using t by simp
    qed
  qed
next
  case Yearly
  have i12: "1 \<le> interval rule * 12" using i by simp
  from Yearly adv have "nxt = addMonths cur (interval rule * 12)"
    by (simp add: advance_Yearly addYears_def)
  from valid_of_addMonths[OF u[unfolded this]]
  show ?thesis using addMonthsTime_progress[OF i12] by auto
next
  case Custom
  then show ?thesis using ty by simp
qed

subsection \<open>The loop\<close>

declare genLoop.simps [simp del]

lemma genLoop_done:
  "\<not> int (length acc) < count \<Longrightarrow> genLoop rule count acc cur = Some acc"
  by (simp add: genLoop.simps[of rule count acc cur])

lemma genLoop_stuck:
  "int (length acc) < count \<Longrightarrow> advance rule cur = None \<Longrightarrow> genLoop rule count acc cur = None"
  by (simp add: genLoop.simps[of rule count acc cur])

lemma genLoop_break:
  "int (length acc) < count \<Longrightarrow> advance rule cur = Some nxt \<Longrightarrow> endDate rule = Some e \<Longrightarrow>
     jsGreater (getTime nxt) (getTime e) \<Longrightarrow> genLoop rule count acc cur = Some acc"
  by (simp add: genLoop.simps[of rule count acc cur])

lemma genLoop_push:
  "int (length acc) < count \<Longrightarrow> advance rule cur = Some nxt \<Longrightarrow>
     (\<And>e. endDate rule = Some e \<Longrightarrow> \<not> jsGreater (getTime nxt) (getTime e)) \<Longrightarrow>
     genLoop rule count acc cur = genLoop rule count (acc @ [nxt]) nxt"
  by (cases "endDate rule") (simp_all add: genLoop.simps[of rule count acc cur])

lemma genLoop_cases:
  obtains (full) "\<not> int (length acc) < count" "genLoop rule count acc cur = Some acc"
  | (stuck) "int (length acc) < count" "advance rule cur = None"
      "genLoop rule count acc cur = None"
  | (break) nxt e where "int (length acc) < count" "advance rule cur = Some nxt"
      "endDate rule = Some e" "jsGreater (getTime nxt) (getTime e)"
      "genLoop rule count acc cur = Some acc"
  | (push) nxt where "int (length acc) < count" "advance rule cur = Some nxt"
      "\<And>e. endDate rule = Some e \<Longrightarrow> \<not> jsGreater (getTime nxt) (getTime e)"
      "genLoop rule count acc cur = genLoop rule count (acc @ [nxt]) nxt"
proof (cases "int (length acc) < count")
  case False
  show ?thesis by (rule that(1)[OF False genLoop_done[OF False]])
next
  case lt: True
  show ?thesis
  proof (cases "advance rule cur")
    case None
    show ?thesis by (rule that(2)[OF lt None genLoop_stuck[OF lt None]])
  next
    case (Some nxt)
    show ?thesis
    proof (cases "\<exists>e. endDate rule = Some e \<and> jsGreater (getTime nxt) (getTime e)")
      case True
      then obtain e where e: "endDate rule = Some e" "jsGreater (getTime nxt) (getTime e)"
        by blast
      show ?thesis by (rule that(3)[OF lt Some e genLoop_break[OF lt Some e]])
    next
      case False
      then have ne: "\<And>e. endDate rule = Some e \<Longrightarrow> \<not> jsGreater (getTime nxt) (getTime e)"
        by blast
      show ?thesis by (rule that(4)[OF lt Some ne genLoop_push[OF lt Some ne]])
    qed
  qed
qed

text \<open>The loop is a recursion on how many dates are still missing.\<close>

lemma genLoop_induct_missing [consumes 0, case_names step]:
  assumes "\<And>acc cur. (\<And>nxt. int (length acc) < count \<Longrightarrow> P (acc @ [nxt]) nxt) \<Longrightarrow> P acc cur"
  shows "P acc cur"
proof (induction "nat (count - int (length acc))" arbitrary: acc cur rule: less_induct)
  case less
  show ?case
  proof (rule assms)
    fix nxt
    assume "int (length acc) < count"
    then have "nat (count - int (length (acc @ [nxt]))) < nat (count - int (length acc))" by simp
    then show "P (acc @ [nxt]) nxt" by (rule less)
  qed
qed

lemma genLoop_prefix:
  "genLoop rule count acc cur = Some occ \<Longrightarrow> \<exists>ext. occ = acc @ ext"
proof (induction acc cur rule: genLoop_induct_missing[where count = count])
  case (step acc cur)
  show ?case
  proof (cases rule: genLoop_cases[of acc count rule cur])
    case full
    then show ?thesis using step.prems by simp
  next
    case stuck
    then show ?thesis using step.prems by simp
  next
    case (break nxt e)
    then show ?thesis using step.prems by simp
  next
    case (push nxt)
    then have "\<exists>ext. occ = (acc @ [nxt]) @ ext" using step.IH[of nxt] step.prems by simp
    then show ?thesis by auto
  qed
qed


lemma genLoop_length:
  assumes "endDate rule = None" and "\<And>c. advance rule c \<noteq> None"
  shows "int (length acc) \<le> count \<Longrightarrow>
    \<exists>occ. genLoop rule count acc cur = Some occ \<and> int (length occ) = count"
proof (induction acc cur rule: genLoop_induct_missing[where count = count])
  case (step acc cur)
  show ?case
  proof (cases rule: genLoop_cases[of acc count rule cur])
    case full
    then show ?thesis using step.prems by simp
  next
    case stuck
    then show ?thesis using assms by simp
  next
    case (break nxt e)
    then show ?thesis using assms by simp
  next
    case (push nxt)
    then show ?thesis using step.IH[of nxt] by simp
  qed
qed


subsection \<open>A valid rule moves forward at every step\<close>

lemma validRule_progress:
  assumes "validRule rule" and "advance rule c = Some n" and "getTime n = Some u"
  shows "\<exists>t. getTime c = Some t \<and> Day t < Day u"
proof (rule advance_progress[OF _ _ _ _ assms(2,3)])
  show "1 \<le> interval rule" "type rule \<noteq> Custom" using assms(1) by (simp_all add: validRule_def)
next
  fix d assume "type rule = Monthly" "monthDay rule = Some d"
  then show "0 \<le> d" using assms(1) by (simp add: validRule_def)
next
  fix w assume "type rule = Monthly" "monthWeekDay rule = Some w"
  then show "0 \<le> w \<and> w \<le> 6" using assms(1) by (simp add: validRule_def)
qed




section \<open>The loop of App.js\<close>



lemma Day_fields: "Day t = monthStart (12 * YearFromTime t + MonthFromTime t) + DateFromTime t - 1"
  by (simp add: month_index DateFromTime_def)

text \<open>Two dates print the same \<open>toDateString\<close> exactly when they are on the same day.\<close>

lemma toDateString_eq_iff:
  assumes "getTime a = Some s" and "getTime b = Some t"
  shows "toDateString a = toDateString b \<longleftrightarrow> Day s = Day t"
proof
  assume "toDateString a = toDateString b"
  then have "MonthFromTime s = MonthFromTime t" "DateFromTime s = DateFromTime t"
    "YearFromTime s = YearFromTime t"
    using assms by (simp_all add: toDateString_def)
  then show "Day s = Day t" using Day_fields[of s] Day_fields[of t] by simp
next
  assume "Day s = Day t"
  then show "toDateString a = toDateString b"
    using assms
    by (simp add: toDateString_def WeekDay_def MonthFromTime_def DateFromTime_def YearFromTime_def)
qed

lemma calcContinues_valid:
  assumes "getTime e = Some te"
  shows "calcContinues (Some e) current \<longleftrightarrow>
           (\<exists>t. getTime current = Some t \<and> (t < te \<or> Day t = Day te))"
proof (cases "getTime current")
  case None
  then show ?thesis
    using assms by (simp add: calcContinues_def isBefore_def jsLess_def toDateString_def)
next
  case (Some t)
  then show ?thesis
    using assms toDateString_eq_iff[OF Some assms]
    by (simp add: calcContinues_def isBefore_def jsLess_def)
qed

lemma calcLoop_unfold:
  "calcLoop freq intervl end' dates current =
     (if calcContinues end' current
      then calcLoop freq intervl end' (dates @ [current]) (calcStep freq intervl current)
      else Some dates)"
  by (subst calcLoop.simps) (simp add: calcContinues_def calcStep_def)


lemma addMonths_0: "addMonths d 0 = d"
  by (simp add: addMonths_def)

lemma calcStep_0: "calcStep freq 0 current = current"
  by (cases freq) (simp_all add: calcStep_def addDays_0 addWeeks_def addYears_def addMonths_0)

text \<open>Without an end date the loop has no exit.\<close>

lemma calcLoop_Some_has_end:
  assumes "calcLoop freq intervl end' dates current = Some y"
  shows "end' \<noteq> None"
proof (rule calcLoop.raw_induct[where P = "\<lambda>freq intervl end' dates current y. end' \<noteq> None",
      OF _ assms])
  fix f :: "Frequency \<Rightarrow> int \<Rightarrow> Date option \<Rightarrow> Date list \<Rightarrow> Date \<Rightarrow> Date list option"
    and freq intervl end' dates current y
  assume IH: "\<And>freq intervl end' dates current y.
      f freq intervl end' dates current = Some y \<Longrightarrow> end' \<noteq> None"
  assume step: "(if case end' of None \<Rightarrow> True
         | Some e \<Rightarrow> isBefore current e \<or> toDateString current = toDateString e
      then f freq intervl end' (dates @ [current])
            (case freq of FreqDaily \<Rightarrow> addDays current intervl
             | FreqWeekly \<Rightarrow> addWeeks current intervl
             | FreqMonthly \<Rightarrow> addMonths current intervl
             | FreqYearly \<Rightarrow> addYears current intervl)
      else Some dates) = Some y"
  show "end' \<noteq> None"
  proof
    assume n: "end' = None"
    with step have "f freq intervl None (dates @ [current])
            (case freq of FreqDaily \<Rightarrow> addDays current intervl
             | FreqWeekly \<Rightarrow> addWeeks current intervl
             | FreqMonthly \<Rightarrow> addMonths current intervl
             | FreqYearly \<Rightarrow> addYears current intervl) = Some y" by simp
    from IH[OF this] show False by simp
  qed
qed

lemma calcLoop_no_end: "calcLoop freq intervl None dates current = None"
  using calcLoop_Some_has_end[of freq intervl None dates current]
  by (cases "calcLoop freq intervl None dates current") auto

text \<open>With interval 0 the date never moves: the loop does not return once it has
  entered.\<close>

lemma calcLoop_Some_interval_0:
  assumes "calcLoop freq intervl end' dates current = Some y"
  shows "\<not> (intervl = 0 \<and> calcContinues end' current)"
proof (rule calcLoop.raw_induct[where P = "\<lambda>freq intervl end' dates current y.
        \<not> (intervl = 0 \<and> calcContinues end' current)", OF _ assms])
  fix f :: "Frequency \<Rightarrow> int \<Rightarrow> Date option \<Rightarrow> Date list \<Rightarrow> Date \<Rightarrow> Date list option"
    and freq intervl end' dates current y
  assume IH: "\<And>freq intervl end' dates current y.
      f freq intervl end' dates current = Some y \<Longrightarrow> \<not> (intervl = 0 \<and> calcContinues end' current)"
  assume step: "(if case end' of None \<Rightarrow> True
         | Some e \<Rightarrow> isBefore current e \<or> toDateString current = toDateString e
      then f freq intervl end' (dates @ [current])
            (case freq of FreqDaily \<Rightarrow> addDays current intervl
             | FreqWeekly \<Rightarrow> addWeeks current intervl
             | FreqMonthly \<Rightarrow> addMonths current intervl
             | FreqYearly \<Rightarrow> addYears current intervl)
      else Some dates) = Some y"
  show "\<not> (intervl = 0 \<and> calcContinues end' current)"
  proof
    assume a: "intervl = 0 \<and> calcContinues end' current"
    then have c: "case end' of None \<Rightarrow> True
         | Some e \<Rightarrow> isBefore current e \<or> toDateString current = toDateString e"
      by (simp add: calcContinues_def)
    have "(case freq of FreqDaily \<Rightarrow> addDays current intervl
             | FreqWeekly \<Rightarrow> addWeeks current intervl
             | FreqMonthly \<Rightarrow> addMonths current intervl
             | FreqYearly \<Rightarrow> addYears current intervl) = current"
      using a calcStep_0[of freq current] by (cases freq) (simp_all add: calcStep_def)
    with step c have "f freq intervl end' (dates @ [current]) current = Some y" by simp
    from IH[OF this] a show False by simp
  qed
qed

lemma calcLoop_interval_0:
  "calcContinues end' current \<Longrightarrow> calcLoop freq 0 end' dates current = None"
  using calcLoop_Some_interval_0[of freq 0 end' dates current]
  by (cases "calcLoop freq 0 end' dates current") auto



section \<open>Further lemmas for the claims\<close>

lemmas date_eval =
  newDate_def newDateHours_def MakeDay_def MakeDate_def monthStart_def DayFromYear_def
  daysBeforeMonth_def InLeapYear_def msPerDay_def

lemma getDay_addDays:
  assumes "getDay c = Some g"
  shows "getTime (addDays c a) = None \<or> getDay (addDays c a) = Some ((g + a) mod 7)"
proof -
  from getDay_Some_valid[OF assms] obtain t where t: "getTime c = Some t" "WeekDay t = g"
    by blast
  show ?thesis
  proof (cases "inRange (t + a * msPerDay)")
    case True
    then have "getTime (addDays c a) = Some (t + a * msPerDay)"
      by (simp add: addDays_valid[OF t(1)] TimeClip_inRange)
    from getters_valid(4)[OF this] show ?thesis using t(2) by (simp add: WeekDay_add_days)
  next
    case False
    then show ?thesis by (simp add: addDays_valid[OF t(1)] TimeClip_out getTime_InvalidDate)
  qed
qed

lemma advance_Weekly_jump:
  assumes "type r = Weekly" and "daysOfWeek r = Some (d # ds)" and "0 \<le> interval r"
    and "getTime c = None \<or> (\<exists>g. getDay c = Some g
           \<and> jsRem (nextDay (d # ds) ((g + 7 * interval r) mod 7)
                      - (g + 7 * interval r) mod 7 + 7) 7 = j)"
    and "0 \<le> j"
  shows "advance r c = Some (addDays c (7 * interval r + j))"
proof -
  define jumped where "jumped = addDays c (7 * interval r)"
  have i7: "0 \<le> 7 * interval r" using assms(3) by simp
  have sum: "addDays jumped j = addDays c (7 * interval r + j)"
    unfolding jumped_def by (rule addDays_addDays[OF i7 assms(5)])
  show ?thesis
  proof (cases "getDay jumped")
    case None
    then have "getTime jumped = None" by (simp add: getDay_def)
    then have inv: "jumped = InvalidDate" by (rule getTime_None)
    have "advance r c = Some InvalidDate"
      using None unfolding jumped_def by (rule advance_Weekly_days_Invalid[OF assms(1,2)])
    also have "InvalidDate = addDays c (7 * interval r + j)"
      using sum unfolding inv by (simp add: addDays_Invalid)
    finally show ?thesis .
  next
    case (Some g')
    then have v: "getTime jumped \<noteq> None" by (auto simp add: getDay_def)
    then obtain y where "getTime (addDays c (7 * interval r)) = Some y"
      unfolding jumped_def by auto
    from valid_of_addDays[OF this] have "getTime c \<noteq> None" by auto
    with assms(4) obtain g where g: "getDay c = Some g"
      "jsRem (nextDay (d # ds) ((g + 7 * interval r) mod 7)
                      - (g + 7 * interval r) mod 7 + 7) 7 = j"
      by blast
    from getDay_addDays[OF g(1), of "7 * interval r"] v Some
    have g': "g' = (g + 7 * interval r) mod 7" unfolding jumped_def by simp
    from advance_Weekly_days[OF assms(1,2) Some[unfolded jumped_def]]
    have "advance r c = Some (addDays jumped j)"
      unfolding jumped_def[symmetric] g' g(2) .
    then show ?thesis unfolding sum .
  qed
qed

text \<open>
  The step of the weekly rule with interval 1 and the weekdays 1, 3 and 5: seven days
  on, then on to the next weekday of the list. From the \<open>Invalid Date\<close> every step
  gives the \<open>Invalid Date\<close>, as does \<open>addDays\<close>.
\<close>

lemma advance_mon_wed_fri:
  assumes "type r = Weekly" "interval r = 1" "daysOfWeek r = Some [1, 3, 5]"
  shows "getTime c = None \<or> getDay c = Some 1 \<Longrightarrow> advance r c = Some (addDays c 9)"
    and "getTime c = None \<or> getDay c = Some 3 \<Longrightarrow> advance r c = Some (addDays c 9)"
    and "getTime c = None \<or> getDay c = Some 5 \<Longrightarrow> advance r c = Some (addDays c 10)"
proof -
  have i: "0 \<le> interval r" using assms(2) by simp
  have e: "jsRem (nextDay [1, 3, 5] ((1 + 7 * interval r) mod 7) - (1 + 7 * interval r) mod 7 + 7) 7 = 2"
    "jsRem (nextDay [1, 3, 5] ((3 + 7 * interval r) mod 7) - (3 + 7 * interval r) mod 7 + 7) 7 = 2"
    "jsRem (nextDay [1, 3, 5] ((5 + 7 * interval r) mod 7) - (5 + 7 * interval r) mod 7 + 7) 7 = 3"
    unfolding assms(2) by (simp_all add: nextDay_def jsRem_def)
  {
    assume "getTime c = None \<or> getDay c = Some 1"
    then have "advance r c = Some (addDays c (7 * interval r + 2))"
      using e(1) by (intro advance_Weekly_jump[OF assms(1,3) i]) auto
    then show "advance r c = Some (addDays c 9)" by (simp add: assms(2))
  }
  {
    assume "getTime c = None \<or> getDay c = Some 3"
    then have "advance r c = Some (addDays c (7 * interval r + 2))"
      using e(2) by (intro advance_Weekly_jump[OF assms(1,3) i]) auto
    then show "advance r c = Some (addDays c 9)" by (simp add: assms(2))
  }
  {
    assume "getTime c = None \<or> getDay c = Some 5"
    then have "advance r c = Some (addDays c (7 * interval r + 3))"
      using e(3) by (intro advance_Weekly_jump[OF assms(1,3) i]) auto
    then show "advance r c = Some (addDays c 10)" by (simp add: assms(2))
  }
qed

lemma genLoop_push_no_end:
  "endDate rule = None \<Longrightarrow> int (length acc) < count \<Longrightarrow> advance rule cur = Some nxt \<Longrightarrow>
     genLoop rule count acc cur = genLoop rule count (acc @ [nxt]) nxt"
  by (rule genLoop_push) simp_all

lemma generateOccurrences_count:
  assumes "\<not> byNthWeekday rule" and "endDate rule = None" and "1 \<le> c"
  shows "\<exists>occ. generateOccurrences rule (Some c) = Some occ \<and> int (length occ) = c"
proof -
  have "advance rule d \<noteq> None" for d using advance_returns[OF assms(1), of d] by auto
  from genLoop_length[OF assms(2) this, of "[startDate rule]" c "startDate rule"] assms(3)
  show ?thesis by (simp add: generateOccurrences_def)
qed

lemma genLoop_first_break:
  assumes "advance rule s = Some nxt" and "endDate rule = Some e"
    and "jsGreater (getTime nxt) (getTime e)"
  shows "genLoop rule c [s] s = Some [s]"
proof (cases "int (length [s]) < c")
  case True
  show ?thesis by (rule genLoop_break[OF True assms])
next
  case False
  show ?thesis by (rule genLoop_done[OF False])
qed

lemma generateOccurrences_end_at_start:
  assumes v: "validRule rule" and e: "endDate rule = Some (startDate rule)"
    and n: "advance rule (startDate rule) = Some nxt" and u: "getTime nxt = Some u"
  shows "generateOccurrences rule count = Some [startDate rule]"
proof -
  from validRule_progress[OF v n u]
  obtain t where t: "getTime (startDate rule) = Some t" "Day t < Day u" by blast
  have "t < u" using t(2) by (rule Day_less_imp_less)
  then have "jsGreater (getTime nxt) (getTime (startDate rule))"
    using t(1) u by (simp add: jsGreater_def jsLess_def)
  from genLoop_first_break[OF n e this] show ?thesis by (simp add: generateOccurrences_def)
qed

text \<open>What the loop of generateOccurrences returns when a step leaves the date where it is.\<close>

lemma genLoop_stationary:
  assumes a: "advance rule s = Some s"
    and e: "\<And>e. endDate rule = Some e \<Longrightarrow> \<not> jsGreater (getTime s) (getTime e)"
  shows "int (length acc) \<le> c \<Longrightarrow>
    genLoop rule c acc s = Some (acc @ replicate (nat (c - int (length acc))) s)"
proof (induction "nat (c - int (length acc))" arbitrary: acc)
  case 0
  then have "\<not> int (length acc) < c" by simp
  from genLoop_done[OF this] show ?case using 0 by simp
next
  case (Suc n)
  then have lt: "int (length acc) < c" by linarith
  have n: "n = nat (c - int (length (acc @ [s])))" using Suc.hyps(2) by simp
  have le: "int (length (acc @ [s])) \<le> c" using lt by simp
  have "genLoop rule c acc s = genLoop rule c (acc @ [s]) s"
    by (rule genLoop_push[OF lt a e])
  also have "\<dots> = Some ((acc @ [s]) @ replicate n s)"
    using Suc.hyps(1)[OF n le] n by simp
  also have "(acc @ [s]) @ replicate n s = acc @ replicate (Suc n) s" by simp
  finally show ?case using Suc.hyps(2) by simp
qed

text \<open>
  When the first step does not return, or returns a date that the end date test lets
  through, the list is not the start date alone (for a count of 2 or more).
\<close>

lemma genLoop_first_push:
  assumes c: "2 \<le> c" and n: "advance rule s = Some nxt"
    and e: "\<And>e. endDate rule = Some e \<Longrightarrow> \<not> jsGreater (getTime nxt) (getTime e)"
  shows "genLoop rule c [s] s \<noteq> Some [s]"
proof
  assume r: "genLoop rule c [s] s = Some [s]"
  have "genLoop rule c [s] s = genLoop rule c ([s] @ [nxt]) nxt"
    using c by (intro genLoop_push[OF _ n e]) simp_all
  with r have "genLoop rule c ([s] @ [nxt]) nxt = Some [s]" by simp
  from genLoop_prefix[OF this] show False by simp
qed

text \<open>
  The step of a monthly rule with a day of the month, when it returns a date: the
  first of the month \<open>interval\<close> months on, plus the day of the month less one,
  whatever the length of that month.
\<close>

lemma advance_Monthly_day_Day:
  assumes "type rule = Monthly" and "monthDay rule = Some md" and "md \<noteq> 0"
    and n: "advance rule cur = Some nxt" and u: "getTime nxt = Some u"
  shows "\<exists>t. getTime cur = Some t
           \<and> Day u = monthStart (monthOf (Day t) + interval rule) + md - 1
           \<and> TimeWithinDay u = TimeWithinDay t"
proof -
  from advance_Monthly_day[OF assms(1-3)] n
  have "nxt = setDate (addMonths cur (interval rule)) (Some md)" by simp
  from valid_of_setDate[OF u[unfolded this]]
  obtain tm where tm: "getTime (addMonths cur (interval rule)) = Some tm"
    and utm: "u = MakeDate (monthStart (monthOf (Day tm)) + md - 1) (TimeWithinDay tm)" by blast
  from valid_of_addMonths[OF tm]
  obtain t where t: "getTime cur = Some t" and tmt: "tm = addMonthsTime t (interval rule)"
    by blast
  have "Day u = monthStart (monthOf (Day tm)) + md - 1" unfolding utm by (rule Day_MakeDate_time)
  moreover have "TimeWithinDay u = TimeWithinDay tm"
    unfolding utm by (rule TimeWithinDay_MakeDate_time)
  ultimately show ?thesis
    using t unfolding tmt by (simp add: monthOf_addMonthsTime TimeWithinDay_addMonthsTime)
qed

text \<open>
  The months from January of the year 100 to August of the year 275760 lie in the
  range of \<open>Date\<close> with all their days (the range ends on 13 September 275760).
\<close>

lemma inRange_MakeDate:
  assumes "- 100000000 \<le> d" and "d < 100000000" and "0 \<le> tm" and "tm < msPerDay"
  shows "inRange (MakeDate d tm)"
  using assms unfolding inRange_def MakeDate_def msPerDay_def by linarith

lemma monthStart_1200: "monthStart 1200 = - 683003"
  by (simp add: monthStart_def DayFromYear_def daysBeforeMonth_def InLeapYear_def)

lemma monthStart_3309128: "monthStart 3309128 = 99999988"
  by (simp add: monthStart_def DayFromYear_def daysBeforeMonth_def InLeapYear_def)

lemma month_inRange:
  assumes "1200 \<le> k" and "k \<le> 3309127" and "0 \<le> tm" and "tm < msPerDay"
    and "monthStart k \<le> d" and "d < monthStart (k + 1)"
  shows "inRange (MakeDate d tm)"
proof -
  have "monthStart 1200 \<le> monthStart k" using assms(1) by (rule monthStart_mono)
  moreover have "monthStart (k + 1) \<le> monthStart 3309128"
    using assms(2) by (intro monthStart_mono) simp
  ultimately show ?thesis
    using assms(3-6) unfolding monthStart_1200 monthStart_3309128
    by (intro inRange_MakeDate) linarith+
qed

lemma month_inRange_time:
  assumes "1200 \<le> monthOf (Day t)" and "monthOf (Day t) \<le> 3309127"
  shows "inRange t"
proof -
  have "inRange (MakeDate (Day t) (TimeWithinDay t))"
    using assms TimeWithinDay_range[of t] monthOf_le[of "Day t"] monthOf_gt[of "Day t"]
    by (intro month_inRange[of "monthOf (Day t)"]) simp_all
  then show ?thesis by (simp add: MakeDate_Day)
qed




text \<open>
  For a date whose year is not one of 0 to 99 and whose month lies in the range of
  \<open>Date\<close>, \<open>getNthWeekdayInMonth\<close> returns, for every weekday from 0 to 6: a date at
  midnight, on that weekday, in the year and month of the date given, on a day of the
  month from 1 to 7 for \<open>first\<close>, 8 to 14 for \<open>second\<close>, 15 to 21 for \<open>third\<close>, 22 to
  28 for \<open>fourth\<close>, and among the last seven days of the month for \<open>last\<close>. That is the
  nth such weekday of the month.
\<close>

lemma getNthWeekdayInMonth_nth_weekday:
  assumes w: "0 \<le> weekday" "weekday \<le> 6" and t: "getTime date = Some t"
    and y: "\<not> (0 \<le> YearFromTime t \<and> YearFromTime t \<le> 99)"
    and rF: "inRange (MakeDate (monthStart (monthOf (Day t))) 0)"
    and rL: "inRange (MakeDate (monthStart (monthOf (Day t) + 1) - 1) 0)"
  shows "\<exists>r u. getNthWeekdayInMonth date week weekday = Some r \<and> getTime r = Some u
         \<and> TimeWithinDay u = 0 \<and> getDay r = Some weekday
         \<and> getFullYear r = getFullYear date \<and> getMonth r = getMonth date
         \<and> (case week of
               First \<Rightarrow> 1 \<le> DateFromTime u \<and> DateFromTime u \<le> 7
             | Second \<Rightarrow> 8 \<le> DateFromTime u \<and> DateFromTime u \<le> 14
             | Third \<Rightarrow> 15 \<le> DateFromTime u \<and> DateFromTime u \<le> 21
             | Fourth \<Rightarrow> 22 \<le> DateFromTime u \<and> DateFromTime u \<le> 28
             | Last \<Rightarrow> daysInMonth (monthOf (Day t)) - 6 \<le> DateFromTime u
                       \<and> DateFromTime u \<le> daysInMonth (monthOf (Day t)))"
proof -
  have cm: "ctorMonth t = monthOf (Day t)" using y by (simp add: ctorMonth_def)
  from getNthWeekdayInMonth_returns[OF w t, unfolded cm, OF rF rL, of week]
  obtain u where u: "getNthWeekdayInMonth date week weekday = Some (TimeClip u)" "inRange u"
    by blast
  have gu: "getTime (TimeClip u) = Some u" using u(2) by (rule TimeClip_inRange)
  note p = getNthWeekdayInMonth_props[OF w t u(1) gu, unfolded cm]
  have "getFullYear (TimeClip u) = getFullYear date" "getMonth (TimeClip u) = getMonth date"
    "getDay (TimeClip u) = Some weekday"
    using p by (simp_all add: getters_valid[OF gu] getters_valid[OF t] YearFromTime_def
        MonthFromTime_def)
  then show ?thesis using u(1) gu p by blast
qed

text \<open>The two examples of the specification.\<close>

lemma second_tuesday_after_first_on_3rd:
  assumes t: "getTime date = Some t"
    and y: "\<not> (0 \<le> YearFromTime t \<and> YearFromTime t \<le> 99)"
    and rL: "inRange (MakeDate (monthStart (monthOf (Day t) + 1) - 1) 0)"
    and f: "getNthWeekdayInMonth date First 2 = Some f" and f3: "getDate f = Some 3"
  shows "\<exists>r. getNthWeekdayInMonth date Second 2 = Some r \<and> getDate r = Some 10
           \<and> getMonth r = getMonth date \<and> getFullYear r = getFullYear date"
proof -
  have w: "(0::int) \<le> 2" "(2::int) \<le> 6" by simp_all
  have cm: "ctorMonth t = monthOf (Day t)" using y by (simp add: ctorMonth_def)
  define k where "k = monthOf (Day t)"
  define F where "F = MakeDate (monthStart k) 0"
  define L where "L = MakeDate (monthStart (k + 1) - 1) 0"
  define j where "j = (2 - WeekDay F) mod 7"
  define b where "b = (WeekDay L - 2) mod 7"
  note cl = getNthWeekdayInMonth_closed[OF w t F_def[unfolded k_def cm[symmetric]]
      L_def[unfolded k_def cm[symmetric]] j_def b_def]
  have jr: "0 \<le> j" "j \<le> 6" by (simp_all add: j_def)
  have dim: "28 \<le> daysInMonth k" by (rule daysInMonth_ge)
  from f cl[of First] have r1: "inRange F" "inRange (F + j * msPerDay)"
    and f1: "f = TimeClip (F + j * msPerDay)"
    by (auto split: if_splits)
  have gf: "getTime f = Some (F + (j + 7 * 0) * msPerDay)"
    unfolding f1 using r1(2) by (simp add: TimeClip_inRange)
  from f3 getters_valid(3)[OF gf] nth_forward(4)[OF w F_def j_def _ _ refl, of 0]
  have j2: "j = 2" by simp
  have iL: "inRange (F + (daysInMonth k - 1) * msPerDay)"
  proof -
    have "monthStart (k + 1) - 1 = monthStart k + (daysInMonth k - 1)"
      by (simp add: monthStart_Suc)
    then have "L = F + (daysInMonth k - 1) * msPerDay"
      unfolding L_def F_def by (simp add: MakeDate_def algebra_simps)
    then show ?thesis using rL unfolding L_def k_def by simp
  qed
  define u where "u = F + (j + 7 * 1) * msPerDay"
  have r2: "inRange u"
    unfolding u_def using jr dim by (intro inRange_addDays_mono[OF r1(1) _ _ iL]) linarith+
  have g2: "getTime (TimeClip u) = Some u" using r2 by (rule TimeClip_inRange)
  note n = nth_forward[OF w F_def j_def _ _ u_def]
  have "getNthWeekdayInMonth date Second 2 = Some (TimeClip u)"
    using cl[of Second] r1 by (simp add: u_def)
  moreover have "getDate (TimeClip u) = Some 10"
    using n(4) j2 by (simp add: getters_valid[OF g2])
  moreover have "getMonth (TimeClip u) = getMonth date"
    "getFullYear (TimeClip u) = getFullYear date"
    using n(3) by (simp_all add: getters_valid[OF g2] getters_valid[OF t] YearFromTime_def
        MonthFromTime_def k_def)
  ultimately show ?thesis by blast
qed

lemma last_friday_of_31_day_month_ending_thursday:
  assumes t: "getTime date = Some t"
    and y: "\<not> (0 \<le> YearFromTime t \<and> YearFromTime t \<le> 99)"
    and rF: "inRange (MakeDate (monthStart (monthOf (Day t))) 0)"
    and d31: "daysInMonth (monthOf (Day t)) = 31"
    and thu: "getDay (newDate (YearFromTime t) (MonthFromTime t + 1) 0) = Some 4"
  shows "getNthWeekdayInMonth date Last 5
           = Some (addDays (newDate (YearFromTime t) (MonthFromTime t + 1) 0) (- 6))
         \<and> getDate (addDays (newDate (YearFromTime t) (MonthFromTime t + 1) 0) (- 6)) = Some 25"
proof -
  have w: "(0::int) \<le> 5" "(5::int) \<le> 6" by simp_all
  have cm: "ctorMonth t = monthOf (Day t)" using y by (simp add: ctorMonth_def)
  define k where "k = monthOf (Day t)"
  define F where "F = MakeDate (monthStart k) 0"
  define L where "L = MakeDate (monthStart (k + 1) - 1) 0"
  define j where "j = (5 - WeekDay F) mod 7"
  define b where "b = (WeekDay L - 5) mod 7"
  note cl = getNthWeekdayInMonth_closed[OF w t F_def[unfolded k_def cm[symmetric]]
      L_def[unfolded k_def cm[symmetric]] j_def b_def]
  have jr: "0 \<le> j" "j \<le> 6" by (simp_all add: j_def)
  have nl: "newDate (YearFromTime t) (MonthFromTime t + 1) 0 = TimeClip L"
    unfolding L_def k_def cm[symmetric] by (rule newDate_last)
  from thu[unfolded nl] getDay_Some_valid obtain l where l: "getTime (TimeClip L) = Some l"
    "WeekDay l = 4" by blast
  then have lL: "l = L" using TimeClip_cases[of L] by simp
  have iL: "inRange L" using l(1) lL getTime_inRange by blast
  have b6: "b = 6" using l(2) unfolding b_def lL by simp
  have iF: "inRange F" using rF unfolding F_def k_def .
  have "monthStart (k + 1) - 1 = monthStart k + (daysInMonth k - 1)"
    by (simp add: monthStart_Suc)
  then have LF: "L = F + 30 * msPerDay"
    unfolding L_def F_def by (simp add: MakeDate_def algebra_simps d31[unfolded k_def[symmetric]])
  have iL': "inRange (F + 30 * msPerDay)" using iL LF by simp
  have r1: "inRange (F + j * msPerDay)"
    using jr by (intro inRange_addDays_mono[OF iF _ _ iL']) linarith+
  have eq: "L - 6 * msPerDay = F + 24 * msPerDay" unfolding LF by simp
  have "inRange (F + 24 * msPerDay)"
    by (intro inRange_addDays_mono[OF iF _ _ iL']) simp_all
  then have r2: "inRange (L - 6 * msPerDay)" unfolding eq .
  have ad: "addDays (TimeClip L) (- 6) = TimeClip (L - 6 * msPerDay)"
    using addDays_valid[OF l(1), of "- 6"] lL by simp
  have g: "getTime (TimeClip (L - 6 * msPerDay)) = Some (L - 6 * msPerDay)"
    using r2 by (rule TimeClip_inRange)
  have "getNthWeekdayInMonth date Last 5 = Some (TimeClip (L - 6 * msPerDay))"
    using cl[of Last] iF r1 iL r2 b6 by simp
  moreover have "DateFromTime (L - 6 * msPerDay) = 25"
    using nth_backward(4)[OF w L_def b_def, of "L - 6 * msPerDay"] b6 d31 by (simp add: k_def)
  ultimately show ?thesis unfolding nl ad by (simp add: getters_valid[OF g])
qed



text \<open>Dates built by the constructor, for the examples.\<close>

lemma newDate_plain:
  "\<not> (0 \<le> y \<and> y \<le> 99) \<Longrightarrow>
     newDate y m d = TimeClip (MakeDate (monthStart (12 * y + m) + d - 1) 0)"
  by (auto simp: newDate_def MakeDay_def)

lemma midnight_fields:
  assumes "1 \<le> d" and "d \<le> daysInMonth k"
  shows "monthOf (Day (MakeDate (monthStart k + d - 1) 0)) = k"
    and "DateFromTime (MakeDate (monthStart k + d - 1) 0) = d"
    and "TimeWithinDay (MakeDate (monthStart k + d - 1) 0) = 0"
proof -
  show m: "monthOf (Day (MakeDate (monthStart k + d - 1) 0)) = k"
    unfolding Day_MakeDate_0 by (rule monthOf_in_month[OF assms])
  have "DateFromTime (MakeDate (monthStart k + d - 1) 0)
      = Day (MakeDate (monthStart k + d - 1) 0) - monthStart k + 1"
    by (simp only: DateFromTime_def m)
  then show "DateFromTime (MakeDate (monthStart k + d - 1) 0) = d"
    by (simp add: Day_MakeDate_0)
  show "TimeWithinDay (MakeDate (monthStart k + d - 1) 0) = 0" by (rule TimeWithinDay_MakeDate_0)
qed

text \<open>
  A monthly rule by weekday whose first step leaves the range of \<open>Date\<close>:
  \<open>addMonths\<close> gives the \<open>Invalid Date\<close>, the loop of \<open>getNthWeekdayInMonth\<close> does
  not end, and \<open>generateOccurrences\<close> returns no list.
\<close>

lemma nth_weekday_out_of_range_does_not_return:
  "validRule \<lparr>type = Monthly, interval = 4000000, daysOfWeek = None, monthDay = None,
       monthWeek = Some First, monthWeekDay = Some 1, startDate = newDate 2024 0 1,
       endDate = None\<rparr>
   \<and> generateOccurrences \<lparr>type = Monthly, interval = 4000000, daysOfWeek = None,
       monthDay = None, monthWeek = Some First, monthWeekDay = Some 1,
       startDate = newDate 2024 0 1, endDate = None\<rparr> (Some 2) = None"
proof -
  define r where "r = \<lparr>type = Monthly, interval = 4000000, daysOfWeek = None, monthDay = None,
       monthWeek = Some First, monthWeekDay = Some 1, startDate = newDate 2024 0 1,
       endDate = None\<rparr>"
  have f: "type r = Monthly" "monthDay r = None \<or> monthDay r = Some 0" "monthWeek r = Some First"
    "monthWeekDay r = Some 1" "interval r = 4000000" "startDate r = newDate 2024 0 1"
    by (simp_all add: r_def)
  have v: "validRule r" by (simp add: validRule_def r_def)
  define T where "T = MakeDate (monthStart (12 * 2024 + 0) + 1 - 1) 0"
  have n: "newDate 2024 0 1 = TimeClip T" unfolding T_def by (rule newDate_plain) simp
  have "inRange T" by (simp add: T_def inRange_def date_eval)
  then have t: "getTime (newDate 2024 0 1) = Some T" unfolding n by (rule TimeClip_inRange)
  have m: "monthOf (Day T) = 12 * 2024 + 0" "TimeWithinDay T = 0"
    unfolding T_def by (rule midnight_fields; simp add: daysInMonth_def)+
  have "\<not> inRange (MakeDate (monthStart (monthOf (Day T) + 4000000 + 1) - 1) (TimeWithinDay T))"
    unfolding m by (simp add: inRange_def date_eval)
  then have "addMonths (newDate 2024 0 1) 4000000 = InvalidDate"
    by (simp add: addMonths_valid[OF t])
  then have "advance r (newDate 2024 0 1) = None"
    by (simp add: advance_Monthly_weekday[OF f(1-4)] f(5) getNthWeekdayInMonth_Invalid)
  then have "genLoop r 2 [newDate 2024 0 1] (newDate 2024 0 1) = None"
    by (intro genLoop_stuck) simp_all
  then show ?thesis using v unfolding r_def by (simp add: generateOccurrences_def)
qed

lemma addDays_TimeClip: "inRange t \<Longrightarrow> addDays (TimeClip t) a = TimeClip (t + a * msPerDay)"
  by (rule addDays_valid) (rule TimeClip_inRange)

lemma negative_interval_not_valid: "interval rule < 1 \<Longrightarrow> \<not> validRule rule"
  by (simp add: validRule_def)

text \<open>
  The range of \<open>Date\<close> ends on a Saturday (day 100,000,000 at midnight), so the
  Wednesday after a Monday is a date whenever the Monday is.
\<close>

lemma monday_plus_2_inRange:
  assumes r: "inRange t" and m: "WeekDay t = 1"
  shows "inRange (t + 2 * msPerDay)"
proof -
  have "t \<le> 100000000 * msPerDay" using r by (simp add: inRange_def msPerDay_def)
  then have "t div msPerDay \<le> (100000000 * msPerDay) div msPerDay" by (rule zdiv_mono1) (rule msPerDay_pos)
  then have le: "Day t \<le> 100000000" using msPerDay_pos by (simp add: Day_def)
  have "Day t \<noteq> 100000000" "Day t \<noteq> 99999999" "Day t \<noteq> 99999998"
    using m by (auto simp add: WeekDay_def)
  with le have d: "Day t \<le> 99999997" by linarith
  have "t = MakeDate (Day t) (TimeWithinDay t)" by (simp add: MakeDate_Day)
  then have "t < Day t * msPerDay + msPerDay"
    using TimeWithinDay_range(2)[of t] by (simp add: MakeDate_def)
  moreover have "Day t * msPerDay \<le> 99999997 * msPerDay"
    using d msPerDay_pos by (intro mult_right_mono) simp_all
  ultimately have "t + 2 * msPerDay \<le> 8640000000000000" by (simp add: msPerDay_def)
  moreover have "- 8640000000000000 \<le> t + 2 * msPerDay"
    using r by (simp add: inRange_def msPerDay_def)
  ultimately show ?thesis by (simp add: inRange_def)
qed

section \<open>The claims\<close>

text \<open>
  C1. The generator of App.js has no count and no other bound: called without an end
  date, \<open>calculateRecurringDates\<close> does not return, whatever the frequency, the
  interval and the start date. (\<open>generateOccurrences\<close> is bounded by its count: the
  lemmas \<open>generateOccurrences_returns\<close>, \<open>generateOccurrences_count\<close> and
  \<open>generateOccurrences_end_at_start\<close>.)
\<close>

theorem calculateRecurringDates_without_end_diverges:
  "calculateRecurringDates freq intervl start None = None"
  unfolding calculateRecurringDates_def by (rule calcLoop_no_end)




text \<open>
  C3. A weekly rule with interval 1 and the weekdays 1, 3 and 5, started on a Monday:
  the first six dates that \<open>generateOccurrences\<close> returns are the start date and the
  dates 9, 18, 28, 37 and 46 days later (a Monday, then the Wednesday of the next
  week, the Friday of the week after, and so on), not the Monday, Wednesday and
  Friday of the start week and of the week that follows (2, 4, 7, 9 and 11 days
  later): the step first jumps seven days and then moves on to the next weekday of
  the list. (A date of the first list that is out of the range of \<open>Date\<close> is the
  \<open>Invalid Date\<close>, as \<open>addDays\<close> gives it; the Wednesday of the start week is always
  in range, so the two lists differ for every start date.)
\<close>

theorem weekly_mon_wed_fri_skips_weeks:
  assumes "getDay s = Some 1"
  shows "generateOccurrences \<lparr>type = Weekly, interval = 1, daysOfWeek = Some [1, 3, 5],
           monthDay = None, monthWeek = None, monthWeekDay = None,
           startDate = s, endDate = None\<rparr> (Some 6)
         = Some [s, addDays s 9, addDays s 18, addDays s 28, addDays s 37, addDays s 46]
       \<and> generateOccurrences \<lparr>type = Weekly, interval = 1, daysOfWeek = Some [1, 3, 5],
           monthDay = None, monthWeek = None, monthWeekDay = None,
           startDate = s, endDate = None\<rparr> (Some 6)
         \<noteq> Some [s, addDays s 2, addDays s 4, addDays s 7, addDays s 9, addDays s 11]"
proof -
  define r where "r = \<lparr>type = Weekly, interval = 1, daysOfWeek = Some [1, 3, 5],
           monthDay = None, monthWeek = None, monthWeekDay = None,
           startDate = s, endDate = None\<rparr>"
  have f: "type r = Weekly" "interval r = 1" "daysOfWeek r = Some [1, 3, 5]"
    and e: "endDate r = None" and st: "startDate r = s"
    by (simp_all add: r_def)
  note adv = advance_mon_wed_fri[OF f]
  note gd = getDay_addDays[OF assms]
  have sum: "addDays (addDays s a) b = addDays s (a + b)" if "0 \<le> a" "0 \<le> b" for a b
    using that by (rule addDays_addDays)
  have a1: "advance r s = Some (addDays s 9)"
    using adv(1)[of s] assms by simp
  have a2: "advance r (addDays s 9) = Some (addDays s 18)"
    using adv(2)[of "addDays s 9"] gd[of 9] by (simp add: sum)
  have a3: "advance r (addDays s 18) = Some (addDays s 28)"
    using adv(3)[of "addDays s 18"] gd[of 18] by (simp add: sum)
  have a4: "advance r (addDays s 28) = Some (addDays s 37)"
    using adv(1)[of "addDays s 28"] gd[of 28] by (simp add: sum)
  have a5: "advance r (addDays s 37) = Some (addDays s 46)"
    using adv(2)[of "addDays s 37"] gd[of 37] by (simp add: sum)
  have "genLoop r 6 [s] s = genLoop r 6 [s, addDays s 9] (addDays s 9)"
    using genLoop_push_no_end[OF e _ a1, of "[s]" 6] by simp
  also have "\<dots> = genLoop r 6 [s, addDays s 9, addDays s 18] (addDays s 18)"
    using genLoop_push_no_end[OF e _ a2, of "[s, addDays s 9]" 6] by simp
  also have "\<dots> = genLoop r 6 [s, addDays s 9, addDays s 18, addDays s 28] (addDays s 28)"
    using genLoop_push_no_end[OF e _ a3, of "[s, addDays s 9, addDays s 18]" 6] by simp
  also have "\<dots> = genLoop r 6 [s, addDays s 9, addDays s 18, addDays s 28, addDays s 37]
      (addDays s 37)"
    using genLoop_push_no_end[OF e _ a4, of "[s, addDays s 9, addDays s 18, addDays s 28]" 6]
    by simp
  also have "\<dots> = genLoop r 6 [s, addDays s 9, addDays s 18, addDays s 28, addDays s 37,
      addDays s 46] (addDays s 46)"
    using genLoop_push_no_end[OF e _ a5,
        of "[s, addDays s 9, addDays s 18, addDays s 28, addDays s 37]" 6]
    by simp
  also have "\<dots> = Some [s, addDays s 9, addDays s 18, addDays s 28, addDays s 37, addDays s 46]"
    by (rule genLoop_done) simp
  finally have res: "generateOccurrences r (Some 6)
      = Some [s, addDays s 9, addDays s 18, addDays s 28, addDays s 37, addDays s 46]"
    by (simp add: generateOccurrences_def st)
  from getDay_Some_valid[OF assms] obtain t where t: "getTime s = Some t" "WeekDay t = 1"
    by blast
  have "inRange (t + 2 * msPerDay)"
    by (rule monday_plus_2_inRange[OF getTime_inRange[OF t(1)] t(2)])
  then have u: "getTime (addDays s 2) = Some (t + 2 * msPerDay)"
    by (simp add: addDays_valid[OF t(1)] TimeClip_inRange)
  have ne: "addDays s 9 \<noteq> addDays s 2"
  proof
    assume eq: "addDays s 9 = addDays s 2"
    from valid_of_addDays[OF u[folded eq]] t(1)
    show False using msPerDay_pos by auto
  qed
  show ?thesis using res ne unfolding r_def by simp
qed

theorem weekly_mon_wed_fri_skips_weeks_witness:
  "getDay (newDate 2024 0 1) = Some 1
   \<and> generateOccurrences \<lparr>type = Weekly, interval = 1, daysOfWeek = Some [1, 3, 5],
           monthDay = None, monthWeek = None, monthWeekDay = None,
           startDate = newDate 2024 0 1, endDate = None\<rparr> (Some 6)
      = Some [newDate 2024 0 1, newDate 2024 0 10, newDate 2024 0 19, newDate 2024 0 29,
              newDate 2024 1 7, newDate 2024 1 16]
   \<and> generateOccurrences \<lparr>type = Weekly, interval = 1, daysOfWeek = Some [1, 3, 5],
           monthDay = None, monthWeek = None, monthWeekDay = None,
           startDate = newDate 2024 0 1, endDate = None\<rparr> (Some 6)
      \<noteq> Some [newDate 2024 0 1, newDate 2024 0 3, newDate 2024 0 5, newDate 2024 0 8,
              newDate 2024 0 10, newDate 2024 0 12]"
proof -
  have t: "getTime (newDate 2024 0 1) = Some 1704067200000"
    by (simp add: date_eval getTime_TimeClip inRange_def)
  have g: "getDay (newDate 2024 0 1) = Some 1"
    by (simp add: getters_valid[OF t] WeekDay_def Day_def msPerDay_def)
  have d: "addDays (newDate 2024 0 1) 9 = newDate 2024 0 10"
    "addDays (newDate 2024 0 1) 18 = newDate 2024 0 19"
    "addDays (newDate 2024 0 1) 28 = newDate 2024 0 29"
    "addDays (newDate 2024 0 1) 37 = newDate 2024 1 7"
    "addDays (newDate 2024 0 1) 46 = newDate 2024 1 16"
    "addDays (newDate 2024 0 1) 2 = newDate 2024 0 3"
    "addDays (newDate 2024 0 1) 4 = newDate 2024 0 5"
    "addDays (newDate 2024 0 1) 7 = newDate 2024 0 8"
    "addDays (newDate 2024 0 1) 11 = newDate 2024 0 12"
    by (simp_all add: addDays_TimeClip inRange_def date_eval)
  note th = weekly_mon_wed_fri_skips_weeks[OF g, unfolded d]
  show ?thesis using g th by blast
qed

text \<open>
  C4. A monthly rule with a day of the month past the end of the month it is due in:
  the date \<open>generateOccurrences\<close> computes is not the last day of that month; it lies
  in the month after, on the day of the month less the length of the month that was
  due (day 1 for day 31 and a month of 30 days). The step returns for every date;
  what it returns is that date, or the \<open>Invalid Date\<close> when that date is out of the
  range of \<open>Date\<close>, which it is not when the month due is one from January 100 to
  July 275760.
\<close>

theorem monthDay_past_month_end_rolls_over:
  assumes "type rule = Monthly" and "monthDay rule = Some md" and "md \<le> 31"
    and "getTime cur = Some t"
    and "daysInMonth (monthOf (Day t) + interval rule) < md"
  shows "\<exists>nxt. advance rule cur = Some nxt
           \<and> (\<forall>u. getTime nxt = Some u \<longrightarrow>
                monthOf (Day u) = monthOf (Day t) + interval rule + 1
                \<and> DateFromTime u = md - daysInMonth (monthOf (Day t) + interval rule))
           \<and> (12 * 100 \<le> monthOf (Day t) + interval rule
                \<and> monthOf (Day t) + interval rule + 1 \<le> 12 * 275760 + 7
              \<longrightarrow> getTime nxt \<noteq> None)"
proof -
  define k where "k = monthOf (Day t) + interval rule"
  have dim: "28 \<le> daysInMonth k" by (rule daysInMonth_ge)
  then have nz: "md \<noteq> 0" using assms(5) by (simp add: k_def)
  define nxt where "nxt = setDate (addMonths cur (interval rule)) (Some md)"
  have n: "advance rule cur = Some nxt"
    unfolding nxt_def by (rule advance_Monthly_day[OF assms(1,2) nz])
  have 1: "monthOf (Day u) = k + 1 \<and> DateFromTime u = md - daysInMonth k"
    if u: "getTime nxt = Some u" for u
  proof -
    from advance_Monthly_day_Day[OF assms(1,2) nz n u] assms(4)
    have "Day u = monthStart k + md - 1" by (simp add: k_def)
    then have D: "Day u = monthStart (k + 1) + (md - daysInMonth k) - 1"
      by (simp add: monthStart_Suc)
    have M: "monthOf (Day u) = k + 1"
      unfolding D using assms(3,5) daysInMonth_ge[of "k + 1"] dim
      by (intro monthOf_in_month) (simp_all add: k_def)
    have "DateFromTime u = Day u - monthStart (k + 1) + 1" by (simp only: DateFromTime_def M)
    then have "DateFromTime u = md - daysInMonth k" by (simp add: D)
    then show ?thesis using M by simp
  qed
  have 2: "getTime nxt \<noteq> None" if kr: "1200 \<le> k" "k + 1 \<le> 3309127"
  proof -
    have "inRange (MakeDate (monthStart (k + 1) - 1) (TimeWithinDay t))"
      using kr dim TimeWithinDay_range[of t]
      by (intro month_inRange[of k]) (simp_all add: monthStart_Suc)
    then have "inRange (MakeDate (monthStart (monthOf (Day t) + interval rule + 1) - 1)
        (TimeWithinDay t))" by (simp add: k_def)
    from addMonths_inRange[OF assms(4) this]
    have am: "addMonths cur (interval rule) = TimeClip (addMonthsTime t (interval rule))" .
    define tm where "tm = addMonthsTime t (interval rule)"
    have mk: "monthOf (Day tm) = k" unfolding tm_def k_def by (rule monthOf_addMonthsTime)
    have "inRange tm" using kr by (intro month_inRange_time) (simp_all add: mk)
    then have gtm: "getTime (addMonths cur (interval rule)) = Some tm"
      unfolding am tm_def[symmetric] by (rule TimeClip_inRange)
    have "monthStart (k + 1) \<le> monthStart k + md - 1"
      using assms(5) by (simp add: monthStart_Suc k_def)
    moreover have "monthStart k + md - 1 < monthStart (k + 1 + 1)"
      unfolding monthStart_Suc[of "k + 1"] monthStart_Suc[of k]
      using assms(3) dim daysInMonth_ge[of "k + 1"] by linarith
    ultimately have "inRange (MakeDate (monthStart k + md - 1) (TimeWithinDay tm))"
      using kr TimeWithinDay_range[of tm] by (intro month_inRange[of "k + 1"]) simp_all
    then show ?thesis
      unfolding nxt_def setDate_valid[OF gtm] mk by (simp add: TimeClip_inRange)
  qed
  show ?thesis using n 1 2 by (simp add: k_def)
qed

theorem monthDay_past_month_end_rolls_over_witness:
  "getTime (newDate 2024 2 31) = Some 1711843200000
   \<and> daysInMonth (monthOf (Day 1711843200000) + 1) < 31
   \<and> 12 * 100 \<le> monthOf (Day 1711843200000) + 1
   \<and> monthOf (Day 1711843200000) + 1 + 1 \<le> 12 * 275760 + 7
   \<and> advance \<lparr>type = Monthly, interval = 1, daysOfWeek = None, monthDay = Some 31,
         monthWeek = None, monthWeekDay = None, startDate = newDate 2024 2 31,
         endDate = None\<rparr> (newDate 2024 2 31) = Some (newDate 2024 4 1)
   \<and> getTime (newDate 2024 4 1) = Some 1714521600000
   \<and> getMonth (newDate 2024 4 1) = Some 4 \<and> getDate (newDate 2024 4 1) = Some 1
   \<and> generateOccurrences \<lparr>type = Monthly, interval = 1, daysOfWeek = None,
         monthDay = Some 31, monthWeek = None, monthWeekDay = None,
         startDate = newDate 2024 2 31, endDate = None\<rparr> (Some 2)
       = Some [newDate 2024 2 31, newDate 2024 4 1]"
proof -
  define r where "r = \<lparr>type = Monthly, interval = 1, daysOfWeek = None, monthDay = Some 31,
         monthWeek = None, monthWeekDay = None, startDate = newDate 2024 2 31,
         endDate = None\<rparr>"
  have f: "type r = Monthly" "monthDay r = Some 31" "interval r = 1" by (simp_all add: r_def)
  define T where "T = MakeDate (monthStart (12 * 2024 + 2) + 31 - 1) 0"
  have Tn: "T = 1711843200000" by (simp add: T_def date_eval)
  have nd: "newDate 2024 2 31 = TimeClip T" unfolding T_def by (rule newDate_plain) simp
  have "inRange T" by (simp add: Tn inRange_def)
  then have t: "getTime (newDate 2024 2 31) = Some T" unfolding nd by (rule TimeClip_inRange)
  have m: "monthOf (Day T) = 12 * 2024 + 2" "DateFromTime T = 31" "TimeWithinDay T = 0"
    unfolding T_def by (rule midnight_fields; simp add: daysInMonth_def)+
  have dm: "daysInMonth (monthOf (Day T) + interval r) < 31"
    by (simp add: m f daysInMonth_def)
  have am: "addMonths (newDate 2024 2 31) 1 = TimeClip (addMonthsTime T 1)"
    by (rule addMonths_inRange[OF t]) (simp add: m inRange_def date_eval)
  have amT: "addMonthsTime T 1 = 1714435200000"
    by (simp add: addMonthsTime_def m daysInMonth_def date_eval)
  have t2: "getTime (TimeClip (addMonthsTime T 1)) = Some (addMonthsTime T 1)"
    by (rule TimeClip_inRange) (simp add: amT inRange_def)
  have "advance r (newDate 2024 2 31)
      = Some (TimeClip (MakeDate (monthStart (12 * 2024 + 2 + 1) + 31 - 1) 0))"
    unfolding advance_Monthly_day[OF f(1,2), of "newDate 2024 2 31", simplified] f(3) am
      setDate_valid[OF t2] monthOf_addMonthsTime TimeWithinDay_addMonthsTime m
    by simp
  then have a: "advance r (newDate 2024 2 31) = Some (newDate 2024 4 1)"
    by (simp add: date_eval)
  have t3: "getTime (newDate 2024 4 1) = Some 1714521600000"
    by (simp add: date_eval getTime_TimeClip inRange_def)
  from monthDay_past_month_end_rolls_over[OF f(1,2) _ t dm] a t3
  have "monthOf (Day 1714521600000) = 12 * 2024 + 2 + 1 + 1"
    "DateFromTime 1714521600000 = 31 - daysInMonth (12 * 2024 + 2 + 1)"
    unfolding m f by auto
  then have "getMonth (newDate 2024 4 1) = Some 4" "getDate (newDate 2024 4 1) = Some 1"
    by (simp_all add: getters_valid[OF t3] MonthFromTime_def daysInMonth_def)
  moreover have "generateOccurrences r (Some 2) = Some [newDate 2024 2 31, newDate 2024 4 1]"
  proof -
    have e: "endDate r = None" and st: "startDate r = newDate 2024 2 31" by (simp_all add: r_def)
    have "genLoop r 2 [newDate 2024 2 31] (newDate 2024 2 31)
        = genLoop r 2 [newDate 2024 2 31, newDate 2024 4 1] (newDate 2024 4 1)"
      using genLoop_push_no_end[OF e _ a, of "[newDate 2024 2 31]" 2] by simp
    also have "\<dots> = Some [newDate 2024 2 31, newDate 2024 4 1]"
      by (rule genLoop_done) simp
    finally show ?thesis by (simp add: generateOccurrences_def st)
  qed
  ultimately show ?thesis using a dm t t3 m(1) unfolding r_def f Tn by simp
qed

text \<open>
  C5, as the code has it. Neither generator checks that a step moved the date forward
  and neither has an error to report. \<open>generateOccurrences\<close> stops on its count and end
  date tests alone: for a daily rule with interval 0 whose end date is absent or not
  before the start date, and a count of at least 1, it returns the start date \<open>count\<close>
  times over. \<open>calculateRecurringDates\<close> with interval 0 does not return once its loop
  test holds for the start date.
\<close>

theorem no_progress_check:
  "(type rule = Daily \<and> interval rule = 0 \<and> 1 \<le> c
      \<and> (case endDate rule of None \<Rightarrow> True
          | Some e \<Rightarrow> \<not> jsGreater (getTime (startDate rule)) (getTime e))
    \<longrightarrow> generateOccurrences rule (Some c) = Some (replicate (nat c) (startDate rule)))
   \<and> ((case end' of None \<Rightarrow> True
         | Some e \<Rightarrow> isBefore start e \<or> toDateString start = toDateString e)
    \<longrightarrow> calculateRecurringDates freq 0 start end' = None)"
proof (intro conjI impI)
  assume h: "type rule = Daily \<and> interval rule = 0 \<and> 1 \<le> c
      \<and> (case endDate rule of None \<Rightarrow> True
          | Some e \<Rightarrow> \<not> jsGreater (getTime (startDate rule)) (getTime e))"
  then have a: "advance rule (startDate rule) = Some (startDate rule)"
    by (simp add: advance_Daily addDays_0)
  have e: "\<And>e. endDate rule = Some e \<Longrightarrow> \<not> jsGreater (getTime (startDate rule)) (getTime e)"
    using h by auto
  have "genLoop rule c [startDate rule] (startDate rule)
      = Some ([startDate rule] @ replicate (nat (c - int (length [startDate rule]))) (startDate rule))"
    using h by (intro genLoop_stationary[OF a e]) simp_all
  also have "[startDate rule] @ replicate (nat (c - int (length [startDate rule]))) (startDate rule)
      = replicate (Suc (nat (c - 1))) (startDate rule)" by simp
  also have "Suc (nat (c - 1)) = nat c" using h by linarith
  finally show "generateOccurrences rule (Some c) = Some (replicate (nat c) (startDate rule))"
    by (simp add: generateOccurrences_def)
next
  assume "case end' of None \<Rightarrow> True
         | Some e \<Rightarrow> isBefore start e \<or> toDateString start = toDateString e"
  then have "calcContinues end' start" by (simp only: calcContinues_def)
  then show "calculateRecurringDates freq 0 start end' = None"
    unfolding calculateRecurringDates_def by (rule calcLoop_interval_0)
qed

theorem no_progress_check_witness:
  "\<not> jsGreater (getTime (newDate 2024 0 1)) (getTime (newDate 2024 0 31))
   \<and> generateOccurrences \<lparr>type = Daily, interval = 0, daysOfWeek = None, monthDay = None,
       monthWeek = None, monthWeekDay = None, startDate = newDate 2024 0 1,
       endDate = Some (newDate 2024 0 31)\<rparr> (Some 4)
     = Some [newDate 2024 0 1, newDate 2024 0 1, newDate 2024 0 1, newDate 2024 0 1]
   \<and> isBefore (newDate 2024 0 1) (newDate 2024 0 31)
   \<and> calculateRecurringDates FreqDaily 0 (newDate 2024 0 1) (Some (newDate 2024 0 31)) = None"
proof -
  have t: "getTime (newDate 2024 0 1) = Some 1704067200000"
    "getTime (newDate 2024 0 31) = Some 1706659200000"
    by (simp_all add: date_eval getTime_TimeClip inRange_def)
  have l: "\<not> jsGreater (getTime (newDate 2024 0 1)) (getTime (newDate 2024 0 31))"
    by (simp add: t jsGreater_def jsLess_def)
  have c: "isBefore (newDate 2024 0 1) (newDate 2024 0 31)"
    by (simp add: t isBefore_def jsLess_def)
  have n: "replicate 4 x = [x, x, x, x]" for x :: Date
    by (simp add: numeral_eq_Suc)
  show ?thesis
    using l c no_progress_check[where rule = "\<lparr>type = Daily, interval = 0, daysOfWeek = None,
       monthDay = None, monthWeek = None, monthWeekDay = None, startDate = newDate 2024 0 1,
       endDate = Some (newDate 2024 0 31)\<rparr>" and c = 4 and end' = "Some (newDate 2024 0 31)"
       and start = "newDate 2024 0 1" and freq = FreqDaily]
    by (simp add: n)
qed

text \<open>
  C5 as the specification states it fails: a daily rule with interval 0 and no end
  date makes \<open>generateOccurrences\<close> return the start date three times for a count of 3;
  nothing is reported and the dates do not advance.
\<close>

theorem no_progress_check_counterexample:
  "generateOccurrences \<lparr>type = Daily, interval = 0, daysOfWeek = None, monthDay = None,
       monthWeek = None, monthWeekDay = None, startDate = newDate 2024 0 1,
       endDate = None\<rparr> (Some 3)
     = Some [newDate 2024 0 1, newDate 2024 0 1, newDate 2024 0 1]"
proof -
  define r where "r = \<lparr>type = Daily, interval = 0, daysOfWeek = None, monthDay = None,
       monthWeek = None, monthWeekDay = None, startDate = newDate 2024 0 1,
       endDate = None\<rparr>"
  have a: "advance r (newDate 2024 0 1) = Some (newDate 2024 0 1)"
    by (simp add: advance_Daily r_def addDays_0)
  have e: "endDate r = None" by (simp add: r_def)
  have "genLoop r 3 [newDate 2024 0 1] (newDate 2024 0 1)
      = genLoop r 3 [newDate 2024 0 1, newDate 2024 0 1] (newDate 2024 0 1)"
    using genLoop_push_no_end[OF e _ a, of "[newDate 2024 0 1]" 3] by simp
  also have "\<dots> = genLoop r 3 [newDate 2024 0 1, newDate 2024 0 1, newDate 2024 0 1]
      (newDate 2024 0 1)"
    using genLoop_push_no_end[OF e _ a, of "[newDate 2024 0 1, newDate 2024 0 1]" 3] by simp
  also have "\<dots> = Some [newDate 2024 0 1, newDate 2024 0 1, newDate 2024 0 1]"
    by (rule genLoop_done) simp
  finally show ?thesis unfolding r_def by (simp add: generateOccurrences_def)
qed

text \<open>
  C6. The end date test of \<open>generateOccurrences\<close> compares time values, so the time of
  day counts: a rule started at 10:00 on 1 January 2024, daily, ending on 3 January
  2024 at 00:00, yields 1 and 2 January only, although the next date, 3 January 10:00,
  is on the calendar day of the end date. The generator of App.js, which also compares
  the calendar days, yields all three.
\<close>

theorem end_date_compared_with_time_of_day:
  "toDateString (newDateHours 2024 0 3 10) = toDateString (newDate 2024 0 3)
   \<and> generateOccurrences \<lparr>type = Daily, interval = 1, daysOfWeek = None, monthDay = None,
         monthWeek = None, monthWeekDay = None, startDate = newDateHours 2024 0 1 10,
         endDate = Some (newDate 2024 0 3)\<rparr> None
       = Some [newDateHours 2024 0 1 10, newDateHours 2024 0 2 10]
   \<and> calculateRecurringDates FreqDaily 1 (newDateHours 2024 0 1 10)
         (Some (newDate 2024 0 3))
       = Some [newDateHours 2024 0 1 10, newDateHours 2024 0 2 10, newDateHours 2024 0 3 10]"
proof -
  define r where "r = \<lparr>type = Daily, interval = 1, daysOfWeek = None, monthDay = None,
         monthWeek = None, monthWeekDay = None, startDate = newDateHours 2024 0 1 10,
         endDate = Some (newDate 2024 0 3)\<rparr>"
  have f: "type r = Daily" "interval r = 1" "endDate r = Some (newDate 2024 0 3)"
    "startDate r = newDateHours 2024 0 1 10"
    by (simp_all add: r_def)
  have t: "getTime (newDateHours 2024 0 1 10) = Some 1704103200000"
    "getTime (newDateHours 2024 0 2 10) = Some 1704189600000"
    "getTime (newDateHours 2024 0 3 10) = Some 1704276000000"
    "getTime (newDateHours 2024 0 4 10) = Some 1704362400000"
    "getTime (newDate 2024 0 3) = Some 1704240000000"
    by (simp_all add: date_eval getTime_TimeClip inRange_def)
  have s: "addDays (newDateHours 2024 0 1 10) 1 = newDateHours 2024 0 2 10"
    "addDays (newDateHours 2024 0 2 10) 1 = newDateHours 2024 0 3 10"
    "addDays (newDateHours 2024 0 3 10) 1 = newDateHours 2024 0 4 10"
    by (simp_all add: addDays_TimeClip inRange_def date_eval)
  have a: "advance r (newDateHours 2024 0 1 10) = Some (newDateHours 2024 0 2 10)"
    "advance r (newDateHours 2024 0 2 10) = Some (newDateHours 2024 0 3 10)"
    by (simp_all add: advance_Daily f s)
  have ne: "\<And>e. endDate r = Some e \<Longrightarrow>
      \<not> jsGreater (getTime (newDateHours 2024 0 2 10)) (getTime e)"
    by (simp add: f t jsGreater_def jsLess_def)
  have gt: "jsGreater (getTime (newDateHours 2024 0 3 10)) (getTime (newDate 2024 0 3))"
    by (simp add: t jsGreater_def jsLess_def)
  have "genLoop r 30 [newDateHours 2024 0 1 10] (newDateHours 2024 0 1 10)
      = genLoop r 30 [newDateHours 2024 0 1 10, newDateHours 2024 0 2 10]
          (newDateHours 2024 0 2 10)"
    using genLoop_push[OF _ a(1) ne, of "[newDateHours 2024 0 1 10]" 30] by simp
  also have "\<dots> = Some [newDateHours 2024 0 1 10, newDateHours 2024 0 2 10]"
    by (rule genLoop_break[OF _ a(2) f(3) gt]) simp
  finally have g: "generateOccurrences r None
      = Some [newDateHours 2024 0 1 10, newDateHours 2024 0 2 10]"
    by (simp add: generateOccurrences_def f)
  have d: "toDateString (newDateHours 2024 0 3 10) = toDateString (newDate 2024 0 3)"
    unfolding toDateString_eq_iff[OF t(3) t(5)] by (simp add: Day_def msPerDay_def)
  have k: "calcContinues (Some (newDate 2024 0 3)) (newDateHours 2024 0 1 10)"
    "calcContinues (Some (newDate 2024 0 3)) (newDateHours 2024 0 2 10)"
    "calcContinues (Some (newDate 2024 0 3)) (newDateHours 2024 0 3 10)"
    "\<not> calcContinues (Some (newDate 2024 0 3)) (newDateHours 2024 0 4 10)"
    unfolding calcContinues_valid[OF t(5)] by (simp_all add: t Day_def msPerDay_def)
  have st: "calcStep FreqDaily 1 d = addDays d 1" for d by (simp add: calcStep_def)
  have "calcLoop FreqDaily 1 (Some (newDate 2024 0 3)) [] (newDateHours 2024 0 1 10)
      = calcLoop FreqDaily 1 (Some (newDate 2024 0 3)) [newDateHours 2024 0 1 10]
          (newDateHours 2024 0 2 10)"
    by (subst calcLoop_unfold) (simp add: k st s)
  also have "\<dots> = calcLoop FreqDaily 1 (Some (newDate 2024 0 3))
      [newDateHours 2024 0 1 10, newDateHours 2024 0 2 10] (newDateHours 2024 0 3 10)"
    by (subst calcLoop_unfold) (simp add: k st s)
  also have "\<dots> = calcLoop FreqDaily 1 (Some (newDate 2024 0 3))
      [newDateHours 2024 0 1 10, newDateHours 2024 0 2 10, newDateHours 2024 0 3 10]
      (newDateHours 2024 0 4 10)"
    by (subst calcLoop_unfold) (simp add: k st s)
  also have "\<dots> = Some [newDateHours 2024 0 1 10, newDateHours 2024 0 2 10,
      newDateHours 2024 0 3 10]"
    by (subst calcLoop_unfold) (simp add: k)
  finally have c: "calculateRecurringDates FreqDaily 1 (newDateHours 2024 0 1 10)
         (Some (newDate 2024 0 3))
       = Some [newDateHours 2024 0 1 10, newDateHours 2024 0 2 10, newDateHours 2024 0 3 10]"
    by (simp add: calculateRecurringDates_def)
  show ?thesis using d g c unfolding r_def by simp
qed



text \<open>
  C8. \<open>getNthWeekdayInMonth\<close> builds the first and last day of the month with
  \<open>new Date(year, month, day)\<close>, which reads a year from 0 to 99 as 1900 + year. For
  every date in such a year, and every weekday from 0 to 6, the date it returns is
  not in the month of the date given: it is in the same month of the year 1900 years
  later. (For every other year whose month lies in the range of \<open>Date\<close> the result is
  the nth weekday of the month of the date given: lemma
  \<open>getNthWeekdayInMonth_nth_weekday\<close>.)
\<close>

theorem getNthWeekdayInMonth_two_digit_year:
  assumes w: "0 \<le> weekday" "weekday \<le> 6"
    and y: "getFullYear date = Some y" "0 \<le> y" "y \<le> 99"
  shows "\<exists>r. getNthWeekdayInMonth date week weekday = Some r \<and> getDay r = Some weekday
           \<and> getFullYear r = Some (1900 + y) \<and> getMonth r = getMonth date"
proof -
  from y(1) obtain t where t: "getTime date = Some t" and yt: "YearFromTime t = y"
    by (auto simp add: getFullYear_def)
  define k where "k = monthOf (Day t) + 22800"
  have cm: "ctorMonth t = k" using y(2,3) yt by (simp add: ctorMonth_def k_def)
  have "0 \<le> monthOf (Day t) div 12" "monthOf (Day t) div 12 \<le> 99"
    using y(2,3) yt by (simp_all add: YearFromTime_def)
  then have "0 \<le> monthOf (Day t)" "monthOf (Day t) < 1200"
    using zdiv_mono1[of 1200 "monthOf (Day t)" 12] by (simp_all add: pos_imp_zdiv_nonneg_iff)
  then have kr: "1200 \<le> k" "k \<le> 3309127" by (simp_all add: k_def)
  have dim: "28 \<le> daysInMonth k" by (rule daysInMonth_ge)
  have rF: "inRange (MakeDate (monthStart (ctorMonth t)) 0)"
    unfolding cm using kr dim msPerDay_pos
    by (intro month_inRange[of k]) (simp_all add: monthStart_Suc)
  have rL: "inRange (MakeDate (monthStart (ctorMonth t + 1) - 1) 0)"
    unfolding cm using kr dim msPerDay_pos
    by (intro month_inRange[of k]) (simp_all add: monthStart_Suc)
  from getNthWeekdayInMonth_returns[OF w t rF rL, of week]
  obtain u where u: "getNthWeekdayInMonth date week weekday = Some (TimeClip u)" "inRange u"
    by blast
  have gu: "getTime (TimeClip u) = Some u" using u(2) by (rule TimeClip_inRange)
  from getNthWeekdayInMonth_props[OF w t u(1) gu]
  have p: "WeekDay u = weekday" "monthOf (Day u) = k" by (simp_all add: cm)
  have e: "k = monthOf (Day t) + 1900 * 12" by (simp add: k_def)
  have "k div 12 = 1900 + monthOf (Day t) div 12"
    unfolding e by (rule div_mult_self1) simp
  moreover have "k mod 12 = monthOf (Day t) mod 12"
    unfolding e by (rule mod_mult_self1)
  ultimately have "YearFromTime u = 1900 + y" "MonthFromTime u = MonthFromTime t"
    using yt unfolding YearFromTime_def MonthFromTime_def p(2) by simp_all
  then show ?thesis
    using u(1) p(1) by (simp add: getters_valid[OF gu] getters_valid[OF t])
qed

theorem getNthWeekdayInMonth_two_digit_year_witness:
  "getFullYear (setFullYear (newDate 2024 0 1) (Some 50) (Some 2) (Some 15)) = Some 50
   \<and> getMonth (setFullYear (newDate 2024 0 1) (Some 50) (Some 2) (Some 15)) = Some 2
   \<and> getDate (setFullYear (newDate 2024 0 1) (Some 50) (Some 2) (Some 15)) = Some 15
   \<and> getNthWeekdayInMonth (setFullYear (newDate 2024 0 1) (Some 50) (Some 2) (Some 15)) First 1
       = Some (newDate 1950 2 6)
   \<and> getFullYear (newDate 1950 2 6) = Some 1950 \<and> getMonth (newDate 1950 2 6) = Some 2
   \<and> getDay (newDate 1950 2 6) = Some 1"
proof -
  define D where "D = setFullYear (newDate 2024 0 1) (Some 50) (Some 2) (Some 15)"
  define T where "T = MakeDate (monthStart (12 * 50 + 2) + 15 - 1) 0"
  have t0: "getTime (newDate 2024 0 1) = Some 1704067200000"
    by (simp add: date_eval getTime_TimeClip inRange_def)
  have "D = TimeClip T"
    unfolding D_def T_def by (simp add: setFullYear_def t0 MakeDay_def TimeWithinDay_def msPerDay_def
        MakeDate_def)
  moreover have "inRange T" by (simp add: T_def inRange_def date_eval)
  ultimately have t: "getTime D = Some T" by (simp add: TimeClip_inRange)
  have m: "monthOf (Day T) = 12 * 50 + 2" "DateFromTime T = 15"
    unfolding T_def by (rule midnight_fields; simp add: daysInMonth_def)+
  have y: "getFullYear D = Some 50" "getMonth D = Some 2" "getDate D = Some 15"
    by (simp_all add: getters_valid[OF t] YearFromTime_def MonthFromTime_def m)
  have w: "(0::int) \<le> 1" "(1::int) \<le> 6" by simp_all
  have cm: "ctorMonth T = 23402" by (simp add: ctorMonth_def YearFromTime_def m)
  have r: "getNthWeekdayInMonth D First 1 = Some (newDate 1950 2 6)"
    unfolding getNthWeekdayInMonth_closed[OF w t refl refl refl refl] cm
    by (simp add: inRange_def WeekDay_def Day_def date_eval)
  from getNthWeekdayInMonth_two_digit_year[OF w y(1), of First] r
  have "getFullYear (newDate 1950 2 6) = Some 1950" "getMonth (newDate 1950 2 6) = Some 2"
    "getDay (newDate 1950 2 6) = Some 1"
    using y(2) by simp_all
  then show ?thesis using y r unfolding D_def by simp
qed

text \<open>
  C9. The picker keeps the interval at 1 or more only in part: the interval field has
  \<open>min="1"\<close> and hands \<open>parseInt(value) || 1\<close> to \<open>handleIntervalChange\<close>, which turns
  text that is no number and the number 0 into 1, but lets a negative number through.
  Typing -2 into the field of the picker in its initial state (a weekly rule with
  interval 1 and no list of weekdays) gives a rule with interval -2, which is not
  valid (lemma \<open>negative_interval_not_valid\<close>) and which reaches
  \<open>generateOccurrences\<close>: the dates it returns go backwards, 14 days at a time.
\<close>

theorem interval_field_admits_negative_interval:
  "intervalFieldValue None = 1 \<and> intervalFieldValue (Some 0) = 1
   \<and> intervalFieldValue (Some (- 2)) = - 2
   \<and> interval (handleIntervalChange
        \<lparr>type = Weekly, interval = 1, daysOfWeek = None, monthDay = None,
           monthWeek = None, monthWeekDay = None, startDate = newDate 2024 0 1,
           endDate = None\<rparr> (intervalFieldValue (Some (- 2)))) = - 2
   \<and> generateOccurrences (handleIntervalChange
        \<lparr>type = Weekly, interval = 1, daysOfWeek = None, monthDay = None,
           monthWeek = None, monthWeekDay = None, startDate = newDate 2024 0 1,
           endDate = None\<rparr> (intervalFieldValue (Some (- 2)))) (Some 3)
       = Some [newDate 2024 0 1, newDate 2023 11 18, newDate 2023 11 4]"
proof -
  define r where "r = \<lparr>type = Weekly, interval = 1, daysOfWeek = None, monthDay = None,
       monthWeek = None, monthWeekDay = None, startDate = newDate 2024 0 1, endDate = None\<rparr>"
  define u where "u = handleIntervalChange r (intervalFieldValue (Some (- 2)))"
  have i: "intervalFieldValue None = 1" "intervalFieldValue (Some 0) = 1"
    "intervalFieldValue (Some (- 2)) = - 2"
    by (simp_all add: intervalFieldValue_def)
  have uf: "type u = Weekly" "daysOfWeek u = None" "interval u = - 2" "endDate u = None"
    "startDate u = newDate 2024 0 1"
    by (simp_all add: u_def r_def handleIntervalChange_def intervalFieldValue_def)
  have a: "advance u (newDate 2024 0 1) = Some (newDate 2023 11 18)"
    "advance u (newDate 2023 11 18) = Some (newDate 2023 11 4)"
    by (simp_all add: advance_Weekly_flat uf addDays_TimeClip inRange_def date_eval)
  have "genLoop u 3 [newDate 2024 0 1] (newDate 2024 0 1)
      = genLoop u 3 [newDate 2024 0 1, newDate 2023 11 18] (newDate 2023 11 18)"
    using genLoop_push_no_end[OF uf(4) _ a(1), of "[newDate 2024 0 1]" 3] by simp
  also have "\<dots> = genLoop u 3 [newDate 2024 0 1, newDate 2023 11 18, newDate 2023 11 4]
      (newDate 2023 11 4)"
    using genLoop_push_no_end[OF uf(4) _ a(2), of "[newDate 2024 0 1, newDate 2023 11 18]" 3]
    by simp
  also have "\<dots> = Some [newDate 2024 0 1, newDate 2023 11 18, newDate 2023 11 4]"
    by (rule genLoop_done) simp
  finally have g: "generateOccurrences u (Some 3)
      = Some [newDate 2024 0 1, newDate 2023 11 18, newDate 2023 11 4]"
    by (simp add: generateOccurrences_def uf)
  show ?thesis using i uf(3) g unfolding u_def r_def by simp
qed

text \<open>
  C10, as the code has it. For every rule whose end date is strictly earlier than its
  start date, \<open>generateOccurrences\<close> returns the one-element list of the start date
  exactly when the count is at most 1 or the first date it computes is a date later
  than the end date: the list is seeded with the start date before any test, and the
  end date test stops the loop at the first date only then. That is so whenever the
  first date computed is a date not earlier than the start date, which holds of every
  rule with an interval of at least 1 (and, if it is a monthly rule, a day of the
  month that is not negative and a weekday of the month from 0 to 6, when given)
  whose first step returns a date, one within the range of \<open>Date\<close>.
\<close>

theorem end_before_start_returns_startDate:
  assumes e: "endDate rule = Some e"
    and lt: "jsLess (getTime e) (getTime (startDate rule))"
  shows "(generateOccurrences rule count = Some [startDate rule] \<longleftrightarrow>
            (case count of None \<Rightarrow> 30 | Some c \<Rightarrow> c) \<le> 1
            \<or> (\<exists>nxt. advance rule (startDate rule) = Some nxt
                  \<and> jsGreater (getTime nxt) (getTime e)))
       \<and> ((\<exists>nxt. advance rule (startDate rule) = Some nxt
               \<and> jsGreaterEq (getTime nxt) (getTime (startDate rule)))
           \<longrightarrow> generateOccurrences rule count = Some [startDate rule])
       \<and> (1 \<le> interval rule
           \<and> (type rule = Monthly \<longrightarrow>
                 (case monthDay rule of None \<Rightarrow> True | Some d \<Rightarrow> 0 \<le> d))
           \<and> (type rule = Monthly \<longrightarrow>
                 (case monthWeekDay rule of None \<Rightarrow> True | Some w \<Rightarrow> 0 \<le> w \<and> w \<le> 6))
           \<and> (\<exists>nxt. advance rule (startDate rule) = Some nxt \<and> getTime nxt \<noteq> None)
           \<longrightarrow> generateOccurrences rule count = Some [startDate rule])"
proof -
  define c where "c = (case count of None \<Rightarrow> 30 | Some c \<Rightarrow> c)"
  define s where "s = startDate rule"
  have g: "generateOccurrences rule count = genLoop rule c [s] s"
    by (simp add: generateOccurrences_def c_def s_def)
  from lt obtain te ts where t: "getTime e = Some te" "getTime s = Some ts" "te < ts"
    by (auto simp add: jsLess_def s_def split: option.splits)
  have brk: "genLoop rule c [s] s = Some [s]"
    if "advance rule s = Some nxt" "jsGreater (getTime nxt) (getTime e)" for nxt
    using that by (intro genLoop_first_break[OF _ e])
  have 1: "genLoop rule c [s] s = Some [s] \<longleftrightarrow>
      c \<le> 1 \<or> (\<exists>nxt. advance rule s = Some nxt \<and> jsGreater (getTime nxt) (getTime e))"
  proof (cases "c \<le> 1")
    case True
    then have "genLoop rule c [s] s = Some [s]" by (intro genLoop_done) simp
    then show ?thesis using True by simp
  next
    case False
    then have c2: "2 \<le> c" "int (length [s]) < c" by simp_all
    show ?thesis
    proof (cases "advance rule s")
      case None
      then show ?thesis using genLoop_stuck[OF c2(2) None] False by simp
    next
      case (Some nxt)
      show ?thesis
      proof (cases "jsGreater (getTime nxt) (getTime e)")
        case True
        then show ?thesis using brk[OF Some True] Some by simp
      next
        case ng: False
        have "genLoop rule c [s] s \<noteq> Some [s]"
          using e ng by (intro genLoop_first_push[OF c2(1) Some]) simp
        then show ?thesis using Some ng False by simp
      qed
    qed
  qed
  have 2: "genLoop rule c [s] s = Some [s]"
    if "advance rule s = Some nxt" "jsGreaterEq (getTime nxt) (getTime s)" for nxt
  proof -
    from that(2) t have "jsGreater (getTime nxt) (getTime e)"
      by (auto simp add: jsGreaterEq_def jsGreater_def jsLess_def split: option.splits)
    from brk[OF that(1) this] show ?thesis .
  qed
  have 3: "genLoop rule c [s] s = Some [s]"
    if i: "1 \<le> interval rule"
      and md: "type rule = Monthly \<longrightarrow> (case monthDay rule of None \<Rightarrow> True | Some d \<Rightarrow> 0 \<le> d)"
      and mw: "type rule = Monthly \<longrightarrow>
                 (case monthWeekDay rule of None \<Rightarrow> True | Some w \<Rightarrow> 0 \<le> w \<and> w \<le> 6)"
      and n: "advance rule s = Some nxt" and v: "getTime nxt \<noteq> None" for nxt
  proof (cases "type rule = Custom")
    case True
    then have "nxt = s" using n by (simp add: advance_Custom)
    then have "jsGreaterEq (getTime nxt) (getTime s)" using t by (simp add: jsGreaterEq_def)
    from 2[OF n this] show ?thesis .
  next
    case False
    from v obtain u where u: "getTime nxt = Some u" by auto
    have "\<exists>t. getTime s = Some t \<and> Day t < Day u"
    proof (rule advance_progress[OF i False _ _ n u])
      fix d assume "type rule = Monthly" "monthDay rule = Some d"
      then show "0 \<le> d" using md by simp
    next
      fix w assume "type rule = Monthly" "monthWeekDay rule = Some w"
      then show "0 \<le> w \<and> w \<le> 6" using mw by simp
    qed
    then have "ts < u" using t(2) Day_less_imp_less[of ts u] by auto
    then have "jsGreaterEq (getTime nxt) (getTime s)" using t u by (simp add: jsGreaterEq_def)
    from 2[OF n this] show ?thesis .
  qed
  show ?thesis
    unfolding g using 1 2 3 unfolding c_def s_def by blast
qed

theorem end_before_start_returns_startDate_witness:
  "jsLess (getTime (newDate 2024 0 9)) (getTime (newDate 2024 0 10))
   \<and> advance \<lparr>type = Daily, interval = 1, daysOfWeek = None,
         monthDay = None, monthWeek = None, monthWeekDay = None,
         startDate = newDate 2024 0 10, endDate = Some (newDate 2024 0 9)\<rparr> (newDate 2024 0 10)
      = Some (newDate 2024 0 11)
   \<and> getTime (newDate 2024 0 11) = Some 1704931200000
   \<and> jsGreaterEq (getTime (newDate 2024 0 11)) (getTime (newDate 2024 0 10))
   \<and> jsGreater (getTime (newDate 2024 0 11)) (getTime (newDate 2024 0 9))
   \<and> generateOccurrences \<lparr>type = Daily, interval = 1, daysOfWeek = None,
         monthDay = None, monthWeek = None, monthWeekDay = None,
         startDate = newDate 2024 0 10, endDate = Some (newDate 2024 0 9)\<rparr> None
      = Some [newDate 2024 0 10]"
proof -
  define r where "r = \<lparr>type = Daily, interval = 1, daysOfWeek = None,
         monthDay = None, monthWeek = None, monthWeekDay = None,
         startDate = newDate 2024 0 10, endDate = Some (newDate 2024 0 9)\<rparr>"
  have f: "type r = Daily" "interval r = 1" "endDate r = Some (newDate 2024 0 9)"
    "startDate r = newDate 2024 0 10"
    by (simp_all add: r_def)
  have t: "getTime (newDate 2024 0 9) = Some 1704758400000"
    "getTime (newDate 2024 0 10) = Some 1704844800000"
    "getTime (newDate 2024 0 11) = Some 1704931200000"
    by (simp_all add: date_eval getTime_TimeClip inRange_def)
  have l: "jsLess (getTime (newDate 2024 0 9)) (getTime (startDate r))"
    by (simp add: f t jsLess_def)
  have a: "advance r (startDate r) = Some (newDate 2024 0 11)"
    by (simp add: advance_Daily f addDays_TimeClip inRange_def date_eval)
  have c: "jsGreaterEq (getTime (newDate 2024 0 11)) (getTime (newDate 2024 0 10))"
    "jsGreater (getTime (newDate 2024 0 11)) (getTime (newDate 2024 0 9))"
    by (simp_all add: t jsGreaterEq_def jsGreater_def jsLess_def)
  from end_before_start_returns_startDate[OF f(3) l, of None] a t(3)
  have "generateOccurrences r None = Some [startDate r]"
    using f(1,2) by auto
  then show ?thesis using l a c t(3) unfolding f(4) unfolding r_def by simp
qed

text \<open>
  C10 as stated, for every rule, fails. With interval -1 the dates walk backwards,
  never pass the end date, and the list grows to the count: here the end date is the
  day before the start date and the count is 3. With interval 1,000,000,000 the first
  date computed is out of the range of \<open>Date\<close>: it is the \<open>Invalid Date\<close>, which the
  end date test does not stop, and the list grows to the count as well.
\<close>

theorem end_before_start_counterexample:
  "jsLess (getTime (newDate 2024 0 9)) (getTime (newDate 2024 0 10))
   \<and> generateOccurrences \<lparr>type = Daily, interval = - 1, daysOfWeek = None,
         monthDay = None, monthWeek = None, monthWeekDay = None,
         startDate = newDate 2024 0 10, endDate = Some (newDate 2024 0 9)\<rparr> (Some 3)
      = Some [newDate 2024 0 10, newDate 2024 0 9, newDate 2024 0 8]
   \<and> generateOccurrences \<lparr>type = Daily, interval = 1000000000, daysOfWeek = None,
         monthDay = None, monthWeek = None, monthWeekDay = None,
         startDate = newDate 2024 0 10, endDate = Some (newDate 2024 0 9)\<rparr> (Some 3)
      = Some [newDate 2024 0 10, InvalidDate, InvalidDate]"
proof -
  define r where "r = \<lparr>type = Daily, interval = - 1, daysOfWeek = None,
         monthDay = None, monthWeek = None, monthWeekDay = None,
         startDate = newDate 2024 0 10, endDate = Some (newDate 2024 0 9)\<rparr>"
  define q where "q = \<lparr>type = Daily, interval = 1000000000, daysOfWeek = None,
         monthDay = None, monthWeek = None, monthWeekDay = None,
         startDate = newDate 2024 0 10, endDate = Some (newDate 2024 0 9)\<rparr>"
  have t: "getTime (newDate 2024 0 8) = Some 1704672000000"
    "getTime (newDate 2024 0 9) = Some 1704758400000"
    "getTime (newDate 2024 0 10) = Some 1704844800000"
    by (simp_all add: date_eval getTime_TimeClip inRange_def)
  have l: "jsLess (getTime (newDate 2024 0 9)) (getTime (newDate 2024 0 10))"
    by (simp add: t jsLess_def)
  have a: "advance r (newDate 2024 0 10) = Some (newDate 2024 0 9)"
    "advance r (newDate 2024 0 9) = Some (newDate 2024 0 8)"
    by (simp_all add: advance_Daily r_def addDays_TimeClip inRange_def date_eval)
  have e: "\<And>e. endDate r = Some e \<Longrightarrow> \<not> jsGreater (getTime (newDate 2024 0 9)) (getTime e)"
    "\<And>e. endDate r = Some e \<Longrightarrow> \<not> jsGreater (getTime (newDate 2024 0 8)) (getTime e)"
    by (simp_all add: r_def t jsGreater_def jsLess_def)
  have "genLoop r 3 [newDate 2024 0 10] (newDate 2024 0 10)
      = genLoop r 3 [newDate 2024 0 10, newDate 2024 0 9] (newDate 2024 0 9)"
    using genLoop_push[OF _ a(1) e(1), of "[newDate 2024 0 10]" 3] by simp
  also have "\<dots> = genLoop r 3 [newDate 2024 0 10, newDate 2024 0 9, newDate 2024 0 8]
      (newDate 2024 0 8)"
    using genLoop_push[OF _ a(2) e(2), of "[newDate 2024 0 10, newDate 2024 0 9]" 3] by simp
  also have "\<dots> = Some [newDate 2024 0 10, newDate 2024 0 9, newDate 2024 0 8]"
    by (rule genLoop_done) simp
  finally have gr: "generateOccurrences r (Some 3)
      = Some [newDate 2024 0 10, newDate 2024 0 9, newDate 2024 0 8]"
    by (simp add: generateOccurrences_def r_def)
  have "\<not> inRange (1704844800000 + 1000000000 * msPerDay)"
    by (simp add: inRange_def msPerDay_def)
  then have b: "advance q (newDate 2024 0 10) = Some InvalidDate"
    "advance q InvalidDate = Some InvalidDate"
    by (simp_all add: advance_Daily q_def addDays_valid[OF t(3)] TimeClip_out addDays_Invalid)
  have i: "\<And>e. endDate q = Some e \<Longrightarrow> \<not> jsGreater (getTime InvalidDate) (getTime e)"
    by (simp add: getTime_InvalidDate jsGreater_def jsLess_def split: option.splits)
  have "genLoop q 3 [newDate 2024 0 10] (newDate 2024 0 10)
      = genLoop q 3 [newDate 2024 0 10, InvalidDate] InvalidDate"
    using genLoop_push[OF _ b(1) i, of "[newDate 2024 0 10]" 3] by simp
  also have "\<dots> = genLoop q 3 [newDate 2024 0 10, InvalidDate, InvalidDate] InvalidDate"
    using genLoop_push[OF _ b(2) i, of "[newDate 2024 0 10, InvalidDate]" 3] by simp
  also have "\<dots> = Some [newDate 2024 0 10, InvalidDate, InvalidDate]"
    by (rule genLoop_done) simp
  finally have gq: "generateOccurrences q (Some 3) = Some [newDate 2024 0 10, InvalidDate, InvalidDate]"
    by (simp add: generateOccurrences_def q_def)
  show ?thesis using l gr gq unfolding r_def q_def by simp
qed

end
